theory Spec2Isabelle
  imports Main "HOL-Library.Word" "HOL-Library.Monad_Syntax"
begin

section \<open>The allocator of mymemory.c\<close>

text \<open>
  The allocator keeps its metadata inside the memory it manages: every block starts
  with a \<open>header\<close> (a 32-bit \<open>size\<close> and a \<open>next\<close> pointer), the free blocks are
  chained through \<open>next\<close>, and an allocated block carries the marker \<open>used_head\<close> there.

  Addresses are byte addresses, modelled as natural numbers: \<open>NULL\<close> is 0 and
  \<open>(void *)-1\<close> is \<open>2^64 - 1\<close>. The sizes are those of the LP64 ABI the file was
  written for (Linux, glibc): a header is 16 bytes, the list descriptor
  (a pointer and a \<open>pthread_mutex_t\<close>) 48 bytes. \<open>unsigned int\<close> and \<open>int\<close> are 32-bit
  words whose arithmetic wraps around (for \<open>int\<close>, where C leaves the overflow
  undefined, this is what the compiled multiplication in \<open>expand_heap\<close> does).

  Memory is read and written header by header: the store gives, for the address of a
  header, its \<open>size\<close> and its \<open>next\<close>. Headers at different addresses are different
  cells; the headers the allocator makes are at least 16 bytes apart, so that they
  do not overlap. The memory of the allocator is what \<open>sbrk\<close> has given it, from
  \<open>heap_head\<close> upwards: a read below \<open>heap_head\<close> is outside of it, and the function
  that makes it does not return.
\<close>

type_synonym addr = nat
type_synonym u32 = "32 word"

definition NULL :: addr where
  "NULL = 0"

definition FAILED :: addr where
  \<comment> \<open>\<open>(void *)-1\<close>, the value \<open>sbrk\<close> returns when it refuses\<close>
  "FAILED = 2 ^ 64 - 1"

definition BYTE_BOUNDARY :: u32 where
  "BYTE_BOUNDARY = 8"

definition PAGE_SIZE :: nat where
  "PAGE_SIZE = 4096"

definition sizeof_header :: nat where
  "sizeof_header = 16"

definition sizeof_free_list :: nat where
  "sizeof_free_list = 48"

text \<open>
  What a call does to the shared state is recorded in program order: the calls on
  the mutex, and the places where \<open>mymalloc\<close> and \<open>myfree\<close> read or write the heap size,
  the list head or a header. These are the range test of \<open>myfree\<close> (it reads
  \<open>heap_head\<close> and \<open>heap_size\<close>), its marker test (it reads the \<open>next\<close> field of the header
  before the pointer), and the calls of \<open>find_free_space\<close>, \<open>shrink_free\<close>, \<open>expand_heap\<close>
  and \<open>insert_free_space\<close>, which work on the list and the headers only.
\<close>

datatype event = Acquire | Release | Range_test | Marker_test
  | Search | Split | Expand | Insert

text \<open>
  The state: the two fields of every header, by the header's address; the field
  \<open>head_list->head\<close>; the global variables of the file; the record of the mutex calls
  and of the accesses (a ghost variable: the code has no such thing);
  and the operating system, which is the current program break, the number of
  \<open>sbrk\<close> calls made so far and the answers it is going to give (\<open>os_grants k\<close> says
  whether the call number \<open>k\<close>, counted from 0, is granted).
\<close>

record state =
  hdr_size :: "addr \<Rightarrow> u32"
  hdr_next :: "addr \<Rightarrow> addr"
  list_head :: addr
  head_list :: addr
  used_head :: addr
  expansion_counter :: u32
  heap_size :: u32
  heap_head :: addr
  lock_trace :: "event list"
  brk :: addr
  sbrk_calls :: nat
  os_grants :: "nat \<Rightarrow> bool"

definition set_size :: "addr \<Rightarrow> u32 \<Rightarrow> state \<Rightarrow> state" where
  "set_size a v s = s\<lparr>hdr_size := (hdr_size s)(a := v)\<rparr>"

definition set_next :: "addr \<Rightarrow> addr \<Rightarrow> state \<Rightarrow> state" where
  "set_next a v s = s\<lparr>hdr_next := (hdr_next s)(a := v)\<rparr>"

definition pthread_mutex_lock :: "state \<Rightarrow> state" where
  "pthread_mutex_lock s = s\<lparr>lock_trace := lock_trace s @ [Acquire]\<rparr>"

definition pthread_mutex_unlock :: "state \<Rightarrow> state" where
  "pthread_mutex_unlock s = s\<lparr>lock_trace := lock_trace s @ [Release]\<rparr>"

definition log_event :: "event \<Rightarrow> state \<Rightarrow> state" where
  \<comment> \<open>the code is about to make the access \<open>e\<close>\<close>
  "log_event e s = s\<lparr>lock_trace := lock_trace s @ [e]\<rparr>"

text \<open>
  \<open>sbrk n\<close> moves the program break up by \<open>n\<close> bytes and returns the old break, or
  returns \<open>(void *)-1\<close> and leaves the break where it is. The system refuses when its
  answer for this call is no, and it cannot grant a break beyond the address space.
\<close>

definition sbrk :: "nat \<Rightarrow> state \<Rightarrow> addr \<times> state" where
  "sbrk n s =
     (let s1 = s\<lparr>sbrk_calls := Suc (sbrk_calls s)\<rparr>
      in if os_grants s (sbrk_calls s) \<and> brk s + n < FAILED
         then (brk s, s1\<lparr>brk := brk s + n\<rparr>)
         else (FAILED, s1))"

definition refused :: "nat \<Rightarrow> state \<Rightarrow> bool" where
  \<comment> \<open>the next \<open>sbrk n\<close> returns \<open>(void *)-1\<close>\<close>
  "refused n s = (fst (sbrk n s) = FAILED)"

text \<open>
  The process before \<open>mymalloc_init\<close>: the globals are zero (static storage), the break
  is where the system put it, memory holds whatever it holds.
\<close>

definition fresh :: "addr \<Rightarrow> (nat \<Rightarrow> bool) \<Rightarrow> (addr \<Rightarrow> u32) \<Rightarrow> (addr \<Rightarrow> addr) \<Rightarrow> state" where
  "fresh b g sz nx =
     \<lparr>hdr_size = sz, hdr_next = nx, list_head = NULL, head_list = NULL, used_head = NULL,
      expansion_counter = 0, heap_size = 0, heap_head = NULL, lock_trace = [],
      brk = b, sbrk_calls = 0, os_grants = g\<rparr>"

subsection \<open>mymalloc_init\<close>

definition mymalloc_init :: "state \<Rightarrow> int \<times> state" where
  "mymalloc_init s =
     (let (r, s1) = sbrk PAGE_SIZE s;
          s2 = s1\<lparr>heap_head := r, head_list := r\<rparr>
      in if heap_head s2 = FAILED then (1, s2)
         else
           let s3 = s2\<lparr>list_head := heap_head s2 + sizeof_free_list\<rparr>;
               s4 = s3\<lparr>lock_trace := []\<rparr>;
               s5 = s4\<lparr>expansion_counter := 1, used_head := FAILED,
                       heap_size := of_nat PAGE_SIZE\<rparr>;
               s6 = set_size (list_head s5)
                      (of_nat (PAGE_SIZE - sizeof_header - sizeof_free_list)) s5;
               s7 = set_next (list_head s6) NULL s6
           in (0, s7))"

subsection \<open>List operations\<close>

text \<open>
  A function that dereferences a null pointer, or whose loop never ends, does not
  return: its value is \<open>None\<close>.
\<close>

definition coalescing :: "addr \<Rightarrow> state \<Rightarrow> state option" where
  "coalescing parent s =
     (if parent = NULL then None
      else if parent + unat (hdr_size s parent) + sizeof_header = hdr_next s parent then
        (let s1 = set_size parent
                    (hdr_size s parent
                       + (hdr_size s (hdr_next s parent) + of_nat sizeof_header)) s;
             s2 = set_next parent (hdr_next s1 (hdr_next s1 parent)) s1
         in Some s2)
      else Some s)"

partial_function (option) insert_free_space_loop :: "addr \<Rightarrow> addr \<Rightarrow> state \<Rightarrow> addr option" where
  "insert_free_space_loop old_space temp_head s =
     (if temp_head = NULL then None
      else if hdr_next s temp_head \<noteq> NULL \<and> hdr_next s temp_head < old_space
      then insert_free_space_loop old_space (hdr_next s temp_head) s
      else Some temp_head)"

declare insert_free_space_loop.simps [code]

definition insert_free_space :: "addr \<Rightarrow> state \<Rightarrow> state option" where
  "insert_free_space old_space s =
     (if old_space < list_head s then
        (if old_space = NULL then None
         else
           let s1 = set_next old_space (list_head s) s;
               s2 = s1\<lparr>list_head := old_space\<rparr>
           in coalescing (list_head s2) s2)
      else do {
        temp_head \<leftarrow> insert_free_space_loop old_space (list_head s) s;
        let s1 = (if hdr_next s temp_head \<noteq> NULL
                  then set_next old_space (hdr_next s temp_head) s else s);
        let s2 = set_next temp_head old_space s1;
        s3 \<leftarrow> coalescing (hdr_next s2 temp_head) s2;
        coalescing temp_head s3
      })"

partial_function (option) find_free_space_loop :: "u32 \<Rightarrow> addr \<Rightarrow> state \<Rightarrow> addr option" where
  "find_free_space_loop sz temp_head s =
     (if temp_head = NULL then Some NULL
      else if unat sz + sizeof_header \<le> unat (hdr_size s temp_head) then Some temp_head
      else find_free_space_loop sz (hdr_next s temp_head) s)"

declare find_free_space_loop.simps [code]

definition find_free_space :: "u32 \<Rightarrow> state \<Rightarrow> addr option" where
  "find_free_space sz s = find_free_space_loop sz (list_head s) s"

partial_function (option) shrink_free_loop :: "addr \<Rightarrow> addr \<Rightarrow> state \<Rightarrow> addr option" where
  "shrink_free_loop free_space temp_head s =
     (if temp_head = NULL then None
      else if hdr_next s temp_head \<noteq> free_space
      then shrink_free_loop free_space (hdr_next s temp_head) s
      else Some temp_head)"

declare shrink_free_loop.simps [code]

definition shrink_free :: "addr \<Rightarrow> u32 \<Rightarrow> state \<Rightarrow> (addr \<times> state) option" where
  "shrink_free free_space sz s =
     (if list_head s = free_space then
        (let new_block = list_head s in
         if new_block = NULL then None
         else
           let s1 = s\<lparr>list_head := list_head s + unat sz + sizeof_header\<rparr>;
               s2 = set_size (list_head s1)
                      (hdr_size s1 new_block - sz - of_nat sizeof_header) s1;
               s3 = set_next (list_head s2) (hdr_next s2 new_block) s2;
               s4 = set_size new_block sz s3;
               s5 = set_next new_block (used_head s4) s4
           in Some (new_block, s5))
      else do {
        temp_head \<leftarrow> shrink_free_loop free_space (list_head s) s;
        let new_block = hdr_next s temp_head;
        if new_block = NULL then None
        else
          let s1 = set_next temp_head (hdr_next s temp_head + unat sz + sizeof_header) s;
              s2 = set_size (hdr_next s1 temp_head)
                     (hdr_size s1 new_block - sz - of_nat sizeof_header) s1;
              s3 = set_next (hdr_next s2 temp_head) (hdr_next s2 new_block) s2;
              s4 = set_size new_block sz s3;
              s5 = set_next new_block (used_head s4) s4
          in Some (new_block, s5)
      })"

partial_function (option) expand_heap_loop :: "addr \<Rightarrow> state \<Rightarrow> addr option" where
  "expand_heap_loop temp_head s =
     (if temp_head = NULL then None
      else if hdr_next s temp_head \<noteq> NULL then expand_heap_loop (hdr_next s temp_head) s
      else Some temp_head)"

declare expand_heap_loop.simps [code]

definition expand_heap :: "state \<Rightarrow> (u32 \<times> state) option" where
  "expand_heap s =
     (let sz = of_nat PAGE_SIZE * expansion_counter s;
          s1 = s\<lparr>expansion_counter := expansion_counter s + 1\<rparr>;
          (r, s2) = sbrk (unat sz) s1
      in if r = FAILED then Some (0, s2)
         else do {
           temp_head \<leftarrow> expand_heap_loop (list_head s2) s2;
           let s3 = set_size temp_head (hdr_size s2 temp_head + sz) s2;
           let s4 = s3\<lparr>heap_size := heap_size s3 + sz\<rparr>;
           Some (sz, s4)
         })"

subsection \<open>mymalloc and myfree\<close>

definition round_request :: "u32 \<Rightarrow> u32" where
  "round_request sz =
     (if sz mod BYTE_BOUNDARY \<noteq> 0 then sz + BYTE_BOUNDARY - sz mod BYTE_BOUNDARY
      else sz)"

partial_function (option) mymalloc_loop :: "u32 \<Rightarrow> state \<Rightarrow> (addr \<times> state) option" where
  "mymalloc_loop sz s =
     do {
       found_block \<leftarrow> find_free_space sz (log_event Search s);
       if found_block \<noteq> NULL then
         do {
           (new_block, s1) \<leftarrow> shrink_free found_block sz (log_event Split (log_event Search s));
           Some (new_block + sizeof_header, pthread_mutex_unlock s1)
         }
       else
         do {
           (r, s1) \<leftarrow> expand_heap (log_event Expand (log_event Search s));
           if r = 0 then Some (NULL, pthread_mutex_unlock s1)
           else mymalloc_loop sz s1
         }
     }"

declare mymalloc_loop.simps [code]

definition mymalloc :: "u32 \<Rightarrow> state \<Rightarrow> (addr \<times> state) option" where
  "mymalloc sz s =
     (if sz = 0 then Some (NULL, s)
      else mymalloc_loop (round_request sz) (pthread_mutex_lock s))"

text \<open>
  \<open>myfree\<close> reads \<open>old_head->next\<close>, the eight bytes before the pointer, once the range
  test has let the pointer through. The range test lets through the pointers from
  \<open>heap_head\<close> on: for the first eight of them the field lies below \<open>heap_head\<close>,
  outside the heap. (A pointer of 16 or less has no header address at all: the
  subtraction gives \<open>NULL\<close> or wraps around.) When the pointer is not one that
  \<open>mymalloc\<close> returned, the eight bytes before it need not be the link field of a
  header: the store has a cell for every address, so that any value may be read
  there.
\<close>

definition myfree :: "addr \<Rightarrow> state \<Rightarrow> (nat \<times> state) option" where
  "myfree ptr s =
     (let s0 = log_event Range_test s in
      if ptr < heap_head s0 \<or> heap_head s0 + unat (heap_size s0) - 8 < ptr then Some (1, s0)
      else
        let old_head = ptr - sizeof_header;
            s1 = log_event Marker_test s0
        in
        if ptr < heap_head s1 + 8 \<or> old_head = NULL then None
        else if hdr_next s1 old_head \<noteq> used_head s1 then Some (1, s1)
        else do {
          s2 \<leftarrow> insert_free_space old_head (log_event Insert (pthread_mutex_lock s1));
          Some (0, pthread_mutex_unlock s2)
        })"

subsection \<open>Vocabulary of the properties\<close>

text \<open>
  \<open>chain nx p as\<close>: following \<open>next\<close> from \<open>p\<close> visits exactly the headers \<open>as\<close> and
  then reaches \<open>NULL\<close>. The free list of a state is the chain from \<open>list_head\<close>.
\<close>

fun chain :: "(addr \<Rightarrow> addr) \<Rightarrow> addr \<Rightarrow> addr list \<Rightarrow> bool" where
  "chain nx p [] = (p = NULL)"
| "chain nx p (a # as) = (p = a \<and> a \<noteq> NULL \<and> chain nx (nx a) as)"

text \<open>\<open>path nx p as q\<close>: the same, up to the pointer \<open>q\<close> instead of \<open>NULL\<close>.\<close>

fun path :: "(addr \<Rightarrow> addr) \<Rightarrow> addr \<Rightarrow> addr list \<Rightarrow> addr \<Rightarrow> bool" where
  "path nx p [] q = (p = q)"
| "path nx p (a # as) q = (p = a \<and> a \<noteq> NULL \<and> path nx (nx a) as q)"

text \<open>
  \<open>apart sz as\<close>: the blocks \<open>as\<close> are in ascending address order and none reaches
  into the next one.
\<close>

fun apart :: "(addr \<Rightarrow> u32) \<Rightarrow> addr list \<Rightarrow> bool" where
  "apart sz [] = True"
| "apart sz [a] = True"
| "apart sz (a # b # bs) = (a + unat (sz a) + sizeof_header \<le> b \<and> apart sz (b # bs))"

text \<open>The test of \<open>find_free_space\<close>: room for the request and one more header.\<close>

definition fits :: "u32 \<Rightarrow> state \<Rightarrow> addr \<Rightarrow> bool" where
  "fits sz s a = (unat sz + sizeof_header \<le> unat (hdr_size s a))"

text \<open>
  \<open>tiles sz a bs e\<close>: the blocks \<open>bs\<close> cover the addresses from \<open>a\<close> to \<open>e\<close> without
  gap: each block starts where the one before it ends. \<open>heap_blocks\<close> reads the
  blocks off the heap, going from header to header from the first one (behind the
  list descriptor) to the end of the heap.
\<close>

fun tiles :: "(addr \<Rightarrow> u32) \<Rightarrow> addr \<Rightarrow> addr list \<Rightarrow> addr \<Rightarrow> bool" where
  "tiles sz a [] e = (a = e)"
| "tiles sz a (b # bs) e = (a = b \<and> tiles sz (b + unat (sz b) + sizeof_header) bs e)"

definition heap_end :: "state \<Rightarrow> addr" where
  "heap_end s = heap_head s + unat (heap_size s)"

function heap_blocks_from :: "state \<Rightarrow> addr \<Rightarrow> addr list" where
  "heap_blocks_from s a =
     (if a + sizeof_header \<le> heap_end s
      then a # heap_blocks_from s (a + unat (hdr_size s a) + sizeof_header)
      else [])"
  by pat_completeness auto
termination
  by (relation "measure (\<lambda>(s, a). heap_end s - a)") (auto simp: sizeof_header_def)

declare heap_blocks_from.simps [simp del]

definition heap_blocks :: "state \<Rightarrow> addr list" where
  "heap_blocks s = heap_blocks_from s (heap_head s + sizeof_free_list)"

definition allocated :: "state \<Rightarrow> addr \<Rightarrow> bool" where
  "allocated s b = (hdr_next s b = used_head s)"

text \<open>The number of bytes the next \<open>expand_heap\<close> asks the system for.\<close>

definition request_size :: "state \<Rightarrow> u32" where
  "request_size s = of_nat PAGE_SIZE * expansion_counter s"

definition free_block :: "state \<Rightarrow> addr \<Rightarrow> bool" where
  "free_block s b = (\<not> allocated s b)"

definition size_at :: "addr \<Rightarrow> state \<Rightarrow> u32" where
  "size_at a s = hdr_size s a"

definition payload :: "state \<Rightarrow> addr list \<Rightarrow> nat" where
  \<comment> \<open>the sum of the sizes of the blocks \<open>bs\<close>\<close>
  "payload s bs = sum_list (map (\<lambda>b. unat (hdr_size s b)) bs)"

text \<open>
  The shape of the heap between two calls, for the blocks \<open>bs\<close>: they cover the heap
  behind the list descriptor; the free list is made of those that do not carry the
  marker, in address order; the last block is free; the marker is \<open>(void *)-1\<close>; the
  heap ends at the program break.
\<close>

definition heap_inv :: "state \<Rightarrow> addr list \<Rightarrow> bool" where
  "heap_inv s bs \<longleftrightarrow>
     tiles (hdr_size s) (heap_head s + sizeof_free_list) bs (heap_end s)
     \<and> chain (hdr_next s) (list_head s) (filter (\<lambda>b. \<not> allocated s b) bs)
     \<and> bs \<noteq> [] \<and> \<not> allocated s (last bs)
     \<and> used_head s = FAILED \<and> heap_end s = brk s \<and> brk s < FAILED"

text \<open>The pointers that \<open>mymalloc\<close> has handed out for the allocated blocks among \<open>bs\<close>.\<close>

definition live :: "state \<Rightarrow> addr list \<Rightarrow> addr set" where
  "live s bs = (\<lambda>b. b + sizeof_header) ` {b \<in> set bs. allocated s b}"

text \<open>\<open>frame s s'\<close>: the variables of the file and the system are in \<open>s'\<close> as in \<open>s\<close>.\<close>

definition frame :: "state \<Rightarrow> state \<Rightarrow> bool" where
  "frame s s' \<longleftrightarrow>
     head_list s' = head_list s \<and> used_head s' = used_head s
     \<and> expansion_counter s' = expansion_counter s \<and> heap_size s' = heap_size s
     \<and> heap_head s' = heap_head s \<and> lock_trace s' = lock_trace s \<and> brk s' = brk s
     \<and> sbrk_calls s' = sbrk_calls s \<and> os_grants s' = os_grants s"

text \<open>
  \<open>grown s s'\<close>: from \<open>s\<close> to \<open>s'\<close> the break has not moved down, the heap has not moved,
  and the expansion counter has advanced by the number of \<open>sbrk\<close> calls.
\<close>

definition grown :: "state \<Rightarrow> state \<Rightarrow> bool" where
  "grown s s' \<longleftrightarrow>
     brk s \<le> brk s' \<and> heap_head s' = heap_head s \<and> head_list s' = head_list s
     \<and> used_head s' = used_head s \<and> os_grants s' = os_grants s
     \<and> sbrk_calls s \<le> sbrk_calls s'
     \<and> expansion_counter s' = expansion_counter s + of_nat (sbrk_calls s' - sbrk_calls s)"

text \<open>
  \<open>covers s bs lo hi\<close>: one free block among \<open>bs\<close> contains the addresses from \<open>lo\<close> to
  \<open>hi\<close>.
\<close>

definition covers :: "state \<Rightarrow> addr list \<Rightarrow> addr \<Rightarrow> addr \<Rightarrow> bool" where
  "covers s bs lo hi =
     (\<exists>f \<in> set bs. \<not> allocated s f \<and> f \<le> lo
        \<and> hi \<le> f + unat (hdr_size s f) + sizeof_header)"

text \<open>
  The validation of \<open>myfree\<close>: the pointer is out of range, or the header before it
  does not carry the marker.
\<close>

definition rejected :: "addr \<Rightarrow> state \<Rightarrow> bool" where
  "rejected ptr s =
     (ptr < heap_head s \<or> heap_head s + unat (heap_size s) - 8 < ptr
      \<or> hdr_next s (ptr - sizeof_header) \<noteq> used_head s)"


fun unlocked :: "bool \<Rightarrow> event list \<Rightarrow> event list" where
  "unlocked h [] = []"
| "unlocked h (Acquire # es) = unlocked True es"
| "unlocked h (Release # es) = unlocked False es"
| "unlocked h (e # es) = (if h then unlocked h es else e # unlocked h es)"

fun locking :: "bool \<Rightarrow> event list \<Rightarrow> bool" where
  "locking h [] = (\<not> h)"
| "locking h (Acquire # es) = (\<not> h \<and> locking True es)"
| "locking h (Release # es) = (h \<and> locking False es)"
| "locking h (e # es) = locking h es"

text \<open>
  The states the allocator goes through. A configuration is a state and the set of
  pointers that \<open>mymalloc\<close> has returned and \<open>myfree\<close> has not yet been given. The
  client frees those; any other pointer it passes to \<open>myfree\<close> is one that the
  validation rejects. \<open>expand_heap\<close> runs inside \<open>mymalloc\<close>; it is a step of its own
  here as well.
\<close>

inductive step :: "state \<times> addr set \<Rightarrow> state \<times> addr set \<Rightarrow> bool" where
  malloc: "mymalloc n s = Some (p, s') \<Longrightarrow>
           step (s, L) (s', if p = NULL then L else insert p L)"
| free: "p \<in> L \<Longrightarrow> myfree p s = Some (r, s') \<Longrightarrow> step (s, L) (s', L - {p})"
| reject: "rejected p s \<Longrightarrow> myfree p s = Some (r, s') \<Longrightarrow> step (s, L) (s', L)"
| expand: "expand_heap s = Some (r, s') \<Longrightarrow> step (s, L) (s', L)"

inductive reach :: "state \<times> addr set \<Rightarrow> bool" where
  init: "mymalloc_init (fresh b g sz nx) = (0, s) \<Longrightarrow> reach (s, {})"
| step: "reach c \<Longrightarrow> step c c' \<Longrightarrow> reach c'"

text \<open>
  What holds of a configuration between two calls: the blocks read off the heap have
  the shape \<open>heap_inv\<close>, and the pointers the client holds are those of the
  allocated blocks.
\<close>

definition good :: "state \<times> addr set \<Rightarrow> bool" where
  "good c = (heap_inv (fst c) (heap_blocks (fst c)) \<and> snd c = live (fst c) (heap_blocks (fst c)))"

text \<open>\<open>aligned_blocks s\<close>: every header is a multiple of 8 bytes away from the heap's start.\<close>

definition aligned_blocks :: "state \<Rightarrow> bool" where
  "aligned_blocks s = (\<forall>b \<in> set (heap_blocks s). b mod 8 = heap_head s mod 8)"

text \<open>
  The heap size is kept in 32 bits. \<open>bounded s\<close>: the memory obtained from the system
  so far is less than \<open>2^32\<close> bytes, so that no size has wrapped around.
\<close>

definition bounded :: "state \<Rightarrow> bool" where
  "bounded s = (brk s < heap_head s + 2 ^ 32)"

subsection \<open>Example states\<close>

text \<open>
  A process whose break is at 4096 and whose memory is zero. In \<open>heap_generous\<close> the
  system grants every request, in \<open>heap_tight\<close> only the reservation made by
  \<open>mymalloc_init\<close>, in \<open>heap_moody\<close> it refuses the second request only.
\<close>

definition grant_all :: "nat \<Rightarrow> bool" where
  "grant_all k = True"

definition grant_first :: "nat \<Rightarrow> bool" where
  "grant_first k = (k = 0)"

definition grant_but_second :: "nat \<Rightarrow> bool" where
  "grant_but_second k = (k \<noteq> 1)"

definition zero_sizes :: "addr \<Rightarrow> u32" where
  "zero_sizes a = 0"

definition zero_links :: "addr \<Rightarrow> addr" where
  "zero_links a = 0"

definition heap_generous :: state where
  "heap_generous = snd (mymalloc_init (fresh 4096 grant_all zero_sizes zero_links))"

definition heap_tight :: state where
  "heap_tight = snd (mymalloc_init (fresh 4096 grant_first zero_sizes zero_links))"

definition heap_moody :: state where
  "heap_moody = snd (mymalloc_init (fresh 4096 grant_but_second zero_sizes zero_links))"

text \<open>
  \<open>heap_one\<close> is \<open>heap_generous\<close> after \<open>mymalloc(64)\<close>, which returns 4160; \<open>heap_two\<close> is \<open>heap_one\<close>
  after a second \<open>mymalloc(64)\<close>, which returns 4240; \<open>heap_three\<close> is \<open>heap_two\<close>
  after \<open>myfree(4160)\<close>. \<open>heap_grown\<close> is \<open>heap_generous\<close> after an expansion, and
  \<open>heap_sulking\<close> is \<open>heap_moody\<close> after the expansion that the system refuses.
\<close>

definition heap_one :: state where
  "heap_one = snd (the (mymalloc 64 heap_generous))"

definition heap_two :: state where
  "heap_two = snd (the (mymalloc 64 heap_one))"

definition heap_three :: state where
  "heap_three = snd (the (myfree 4160 heap_two))"

definition heap_grown :: state where
  "heap_grown = snd (the (expand_heap heap_generous))"

definition heap_sulking :: state where
  "heap_sulking = snd (the (expand_heap heap_moody))"

section \<open>Properties\<close>

lemmas c_defs = NULL_def FAILED_def BYTE_BOUNDARY_def PAGE_SIZE_def sizeof_header_def
  sizeof_free_list_def

subsection \<open>Reading the state after a write\<close>

lemma set_size_fields [simp]:
  "hdr_size (set_size a v s) = (hdr_size s)(a := v)"
  "hdr_next (set_size a v s) = hdr_next s"
  "list_head (set_size a v s) = list_head s"
  "head_list (set_size a v s) = head_list s"
  "used_head (set_size a v s) = used_head s"
  "expansion_counter (set_size a v s) = expansion_counter s"
  "heap_size (set_size a v s) = heap_size s"
  "heap_head (set_size a v s) = heap_head s"
  "lock_trace (set_size a v s) = lock_trace s"
  "brk (set_size a v s) = brk s"
  "sbrk_calls (set_size a v s) = sbrk_calls s"
  "os_grants (set_size a v s) = os_grants s"
  by (simp_all add: set_size_def)

lemma set_next_fields [simp]:
  "hdr_size (set_next a v s) = hdr_size s"
  "hdr_next (set_next a v s) = (hdr_next s)(a := v)"
  "list_head (set_next a v s) = list_head s"
  "head_list (set_next a v s) = head_list s"
  "used_head (set_next a v s) = used_head s"
  "expansion_counter (set_next a v s) = expansion_counter s"
  "heap_size (set_next a v s) = heap_size s"
  "heap_head (set_next a v s) = heap_head s"
  "lock_trace (set_next a v s) = lock_trace s"
  "brk (set_next a v s) = brk s"
  "sbrk_calls (set_next a v s) = sbrk_calls s"
  "os_grants (set_next a v s) = os_grants s"
  by (simp_all add: set_next_def)

lemma lock_fields [simp]:
  "hdr_size (pthread_mutex_lock s) = hdr_size s"
  "hdr_next (pthread_mutex_lock s) = hdr_next s"
  "list_head (pthread_mutex_lock s) = list_head s"
  "head_list (pthread_mutex_lock s) = head_list s"
  "used_head (pthread_mutex_lock s) = used_head s"
  "expansion_counter (pthread_mutex_lock s) = expansion_counter s"
  "heap_size (pthread_mutex_lock s) = heap_size s"
  "heap_head (pthread_mutex_lock s) = heap_head s"
  "lock_trace (pthread_mutex_lock s) = lock_trace s @ [Acquire]"
  "brk (pthread_mutex_lock s) = brk s"
  "sbrk_calls (pthread_mutex_lock s) = sbrk_calls s"
  "os_grants (pthread_mutex_lock s) = os_grants s"
  by (simp_all add: pthread_mutex_lock_def)

lemma unlock_fields [simp]:
  "hdr_size (pthread_mutex_unlock s) = hdr_size s"
  "hdr_next (pthread_mutex_unlock s) = hdr_next s"
  "list_head (pthread_mutex_unlock s) = list_head s"
  "head_list (pthread_mutex_unlock s) = head_list s"
  "used_head (pthread_mutex_unlock s) = used_head s"
  "expansion_counter (pthread_mutex_unlock s) = expansion_counter s"
  "heap_size (pthread_mutex_unlock s) = heap_size s"
  "heap_head (pthread_mutex_unlock s) = heap_head s"
  "lock_trace (pthread_mutex_unlock s) = lock_trace s @ [Release]"
  "brk (pthread_mutex_unlock s) = brk s"
  "sbrk_calls (pthread_mutex_unlock s) = sbrk_calls s"
  "os_grants (pthread_mutex_unlock s) = os_grants s"
  by (simp_all add: pthread_mutex_unlock_def)

lemma log_event_fields [simp]:
  "hdr_size (log_event e s) = hdr_size s"
  "hdr_next (log_event e s) = hdr_next s"
  "list_head (log_event e s) = list_head s"
  "head_list (log_event e s) = head_list s"
  "used_head (log_event e s) = used_head s"
  "expansion_counter (log_event e s) = expansion_counter s"
  "heap_size (log_event e s) = heap_size s"
  "heap_head (log_event e s) = heap_head s"
  "lock_trace (log_event e s) = lock_trace s @ [e]"
  "brk (log_event e s) = brk s"
  "sbrk_calls (log_event e s) = sbrk_calls s"
  "os_grants (log_event e s) = os_grants s"
  by (simp_all add: log_event_def)

subsection \<open>Chains\<close>

lemma chain_NULL [simp]: "chain nx NULL as = (as = [])"
  by (cases as) auto

lemma chain_unique: "chain nx p as \<Longrightarrow> chain nx p bs \<Longrightarrow> as = bs"
proof (induction as arbitrary: p bs)
  case Nil
  then show ?case by simp
next
  case (Cons a as)
  then show ?case by (cases bs) auto
qed

lemma chain_suffix: "chain nx p (as @ b # bs) \<Longrightarrow> chain nx b (b # bs)"
  by (induction as arbitrary: p) auto

lemma chain_not_in_tl:
  assumes c: "chain nx (nx a) as" and n: "a \<noteq> NULL"
  shows "a \<notin> set as"
proof
  assume "a \<in> set as"
  then obtain xs ys where as: "as = xs @ a # ys"
    by (auto simp: in_set_conv_decomp)
  with c have "chain nx a (a # ys)"
    by (auto dest: chain_suffix)
  then have "chain nx (nx a) ys" by simp
  with c have "as = ys" by (rule chain_unique)
  with as show False by simp
qed

lemma chain_distinct: "chain nx p as \<Longrightarrow> distinct as"
  by (induction as arbitrary: p) (auto dest: chain_not_in_tl)

lemma chain_upd [simp]: "u \<notin> set as \<Longrightarrow> chain (nx(u := v)) p as = chain nx p as"
  by (induction as arbitrary: p) auto

lemma chain_nonnull: "chain nx p as \<Longrightarrow> NULL \<notin> set as"
  by (induction as arbitrary: p) auto

lemma chain_hd: "chain nx p as \<Longrightarrow> as \<noteq> [] \<Longrightarrow> p = hd as"
  by (cases as) auto

lemma chain_empty_iff: "chain nx p as \<Longrightarrow> (as = []) = (p = NULL)"
  by (cases as) auto

subsection \<open>The loops on a chain\<close>

lemma find_free_space_loop_chain:
  "chain (hdr_next s) p fl \<Longrightarrow>
   find_free_space_loop sz p s =
     Some (case List.find (fits sz s) fl of Some a \<Rightarrow> a | None \<Rightarrow> NULL)"
proof (induction fl arbitrary: p)
  case Nil
  then show ?case by (subst find_free_space_loop.simps) simp
next
  case (Cons a fl)
  then show ?case by (subst find_free_space_loop.simps) (simp add: fits_def [abs_def])
qed

lemma find_default_iff:
  "d \<notin> set xs \<Longrightarrow>
   (case List.find P xs of Some a \<Rightarrow> a | None \<Rightarrow> d) = d \<longleftrightarrow> (\<forall>a \<in> set xs. \<not> P a)"
  by (induction xs) auto

lemma shrink_free_loop_chain:
  "chain (hdr_next s) p (xs @ t # f # ys) \<Longrightarrow> shrink_free_loop f p s = Some t"
proof (induction xs arbitrary: p)
  case Nil
  then show ?case by (subst shrink_free_loop.simps) simp
next
  case (Cons x xs)
  from chain_distinct [OF Cons.prems] have d: "distinct (x # xs @ t # f # ys)"
    by simp
  from Cons.prems have nx: "chain (hdr_next s) (hdr_next s x) (xs @ t # f # ys)"
    and x: "p = x" "x \<noteq> NULL" by simp_all
  from nx have "hdr_next s x = hd (xs @ t # f # ys)"
    by (rule chain_hd) simp
  with d have "hdr_next s x \<noteq> f" by (cases xs) auto
  with x Cons.IH [OF nx] show ?case
    by (subst shrink_free_loop.simps) simp
qed

lemma expand_heap_loop_chain:
  "chain (hdr_next s) p fl \<Longrightarrow> fl \<noteq> [] \<Longrightarrow> expand_heap_loop p s = Some (last fl)"
proof (induction fl arbitrary: p)
  case Nil
  then show ?case by simp
next
  case (Cons a fl)
  show ?case
  proof (cases fl)
    case Nil
    with Cons.prems show ?thesis by (subst expand_heap_loop.simps) simp
  next
    case (Cons b fl')
    with Cons.prems Cons.IH [of "hdr_next s a"] show ?thesis
      by (subst expand_heap_loop.simps) auto
  qed
qed

lemma insert_free_space_loop_chain:
  "chain (hdr_next s) p (xs @ t # ys) \<Longrightarrow> \<forall>x \<in> set (tl (xs @ [t])). x < old \<Longrightarrow>
   ys = [] \<or> old \<le> hd ys \<Longrightarrow> insert_free_space_loop old p s = Some t"
proof (induction xs arbitrary: p)
  case Nil
  then show ?case
    by (subst insert_free_space_loop.simps) (cases ys; auto)
next
  case (Cons x xs)
  from Cons.prems have nx: "chain (hdr_next s) (hdr_next s x) (xs @ t # ys)"
    and x: "p = x" "x \<noteq> NULL" by simp_all
  from nx have h: "hdr_next s x = hd (xs @ [t])"
    by (cases xs) auto
  from nx have "hdr_next s x \<noteq> NULL" by (cases xs) auto
  moreover from h Cons.prems(2) have "hdr_next s x < old" by (cases xs) auto
  moreover have "insert_free_space_loop old (hdr_next s x) s = Some t"
    using nx Cons.prems(2,3) by (intro Cons.IH) (cases xs; auto)+
  ultimately show ?case using x
    by (subst insert_free_space_loop.simps) simp
qed

lemma insert_free_space_loop_returns:
  "chain (hdr_next s) p fl \<Longrightarrow> fl \<noteq> [] \<Longrightarrow>
   \<exists>t \<in> set fl. insert_free_space_loop old p s = Some t"
proof (induction fl arbitrary: p)
  case Nil
  then show ?case by simp
next
  case (Cons a fl)
  show ?case
  proof (cases "hdr_next s a \<noteq> NULL \<and> hdr_next s a < old")
    case True
    with Cons.prems have "fl \<noteq> []" by (cases fl) auto
    with Cons.prems Cons.IH [of "hdr_next s a"]
    obtain t where "t \<in> set fl" "insert_free_space_loop old (hdr_next s a) s = Some t"
      by auto
    with True Cons.prems show ?thesis
      by (subst insert_free_space_loop.simps) auto
  next
    case False
    with Cons.prems show ?thesis
      by (subst insert_free_space_loop.simps) auto
  qed
qed

subsection \<open>The system's answer\<close>

lemma refused_iff:
  "refused n s \<longleftrightarrow> \<not> (os_grants s (sbrk_calls s) \<and> brk s + n < FAILED)"
  by (auto simp: refused_def sbrk_def Let_def)

lemma heap_tight_fields:
  "expansion_counter heap_tight = 1" "sbrk_calls heap_tight = 1"
  "os_grants heap_tight = grant_first" "heap_size heap_tight = 4096"
  "brk heap_tight = 8192" "heap_head heap_tight = 4096" "list_head heap_tight = 4144"
  by (simp_all add: heap_tight_def mymalloc_init_def fresh_def sbrk_def grant_first_def
      FAILED_def PAGE_SIZE_def sizeof_free_list_def Let_def)

subsection \<open>Heap expansion refused\<close>

lemma expand_heap_refusal:
  assumes "refused (unat (of_nat PAGE_SIZE * expansion_counter s)) s"
  shows "expand_heap s =
           Some (0, s\<lparr>expansion_counter := expansion_counter s + 1,
                      sbrk_calls := Suc (sbrk_calls s)\<rparr>)"
proof -
  from assms
  have "\<not> (os_grants s (sbrk_calls s)
           \<and> brk s + unat (of_nat PAGE_SIZE * expansion_counter s) < FAILED)"
    by (simp add: refused_iff)
  then show ?thesis
    by (auto simp: expand_heap_def sbrk_def Let_def)
qed

text \<open>
  C1 (as amended). When the system refuses the request, \<open>expand_heap\<close> returns 0 and
  leaves the free list, every header and the heap size as they were. The expansion
  counter is not left as it was: it is incremented before the request is made, so it
  counts the refused call too (and the system has seen one more call).
\<close>

theorem expand_heap_refused:
  assumes "refused (unat (of_nat PAGE_SIZE * expansion_counter s)) s"
  shows "expand_heap s =
           Some (0, s\<lparr>expansion_counter := expansion_counter s + 1,
                      sbrk_calls := Suc (sbrk_calls s)\<rparr>)"
  using assms by (rule expand_heap_refusal)

text \<open>The same at \<open>heap_tight\<close>, whose system refuses every expansion.\<close>

theorem expand_heap_refused_witness:
  "refused (unat (of_nat PAGE_SIZE * expansion_counter heap_tight)) heap_tight
   \<and> expand_heap heap_tight =
       Some (0, heap_tight\<lparr>expansion_counter := expansion_counter heap_tight + 1,
                           sbrk_calls := Suc (sbrk_calls heap_tight)\<rparr>)"
proof -
  have r: "refused (unat (of_nat PAGE_SIZE * expansion_counter heap_tight)) heap_tight"
    by (simp add: refused_iff heap_tight_fields grant_first_def)
  from r expand_heap_refused [OF r] show ?thesis by simp
qed

text \<open>
  C1 as stated fails in \<open>heap_tight\<close>: the refused expansion moves the counter from 1
  to 2.
\<close>

theorem expand_heap_refused_counter_moves:
  "refused (unat (of_nat PAGE_SIZE * expansion_counter heap_tight)) heap_tight
   \<and> expansion_counter heap_tight = 1
   \<and> map_option (\<lambda>(r, s'). (r, expansion_counter s')) (expand_heap heap_tight) = Some (0, 2)"
  by (simp add: refused_iff heap_tight_fields grant_first_def expand_heap_def sbrk_def
      Let_def)

subsection \<open>First fit\<close>

text \<open>
  C7. On a well-formed free list \<open>fl\<close>, \<open>find_free_space\<close> returns the first block of
  the list whose size is at least the request plus one header, and it returns \<open>NULL\<close>
  exactly when no block of the list is that large.
\<close>

theorem find_free_space_first_fit:
  assumes "chain (hdr_next s) (list_head s) fl"
  shows "find_free_space sz s =
           Some (case List.find (fits sz s) fl of Some a \<Rightarrow> a | None \<Rightarrow> NULL)
         \<and> (find_free_space sz s = Some NULL \<longleftrightarrow> (\<forall>a \<in> set fl. \<not> fits sz s a))"
proof -
  have r: "find_free_space sz s =
           Some (case List.find (fits sz s) fl of Some a \<Rightarrow> a | None \<Rightarrow> NULL)"
    unfolding find_free_space_def using assms by (rule find_free_space_loop_chain)
  have "NULL \<notin> set fl" using assms by (rule chain_nonnull)
  then have "(case List.find (fits sz s) fl of Some a \<Rightarrow> a | None \<Rightarrow> NULL) = NULL
             \<longleftrightarrow> (\<forall>a \<in> set fl. \<not> fits sz s a)"
    by (rule find_default_iff)
  with r show ?thesis by simp
qed

subsection \<open>Validation in myfree\<close>

lemma coalescing_returns: "parent \<noteq> NULL \<Longrightarrow> \<exists>s'. coalescing parent s = Some s'"
  by (simp add: coalescing_def Let_def)

lemma insert_free_space_returns:
  assumes c: "chain (hdr_next s) (list_head s) fl" and ne: "fl \<noteq> []"
    and old: "old \<noteq> NULL"
  shows "\<exists>s'. insert_free_space old s = Some s'"
proof (cases "old < list_head s")
  case True
  with old show ?thesis
    by (simp add: insert_free_space_def Let_def coalescing_returns)
next
  case False
  from insert_free_space_loop_returns [OF c ne, of old]
  obtain t where t: "t \<in> set fl" "insert_free_space_loop old (list_head s) s = Some t"
    by auto
  from c t(1) have tn: "t \<noteq> NULL" by (auto dest: chain_nonnull)
  define s2 where "s2 = set_next t old (if hdr_next s t \<noteq> NULL
                  then set_next old (hdr_next s t) s else s)"
  have "hdr_next s2 t = old" by (simp add: s2_def)
  with old obtain s3 where s3: "coalescing (hdr_next s2 t) s2 = Some s3"
    using coalescing_returns [of old s2] by auto
  from tn obtain s4 where "coalescing t s3 = Some s4"
    using coalescing_returns [of t s3] by auto
  with False t s3 show ?thesis
    by (simp add: insert_free_space_def Let_def s2_def)
qed

text \<open>
  What \<open>myfree\<close> answers. A pointer that the range test stops is answered 1. A pointer
  that the range test lets through and that is less than 8 bytes above \<open>heap_head\<close>
  is not answered: the marker test reads below the heap. Any other pointer whose
  header does not carry the marker is answered 1. In both answers the heap is left
  as it was.
\<close>

lemma myfree_out_of_range:
  assumes "p < heap_head s \<or> heap_head s + unat (heap_size s) - 8 < p"
  shows "myfree p s = Some (1, log_event Range_test s)"
  using assms by (simp add: myfree_def Let_def)

lemma myfree_below_heap:
  assumes "heap_head s \<le> p" "p < heap_head s + 8" "p \<le> heap_head s + unat (heap_size s) - 8"
  shows "myfree p s = None"
  using assms by (simp add: myfree_def Let_def)

lemma myfree_no_marker:
  assumes "heap_head s + 8 \<le> p" "p \<le> heap_head s + unat (heap_size s) - 8"
    and "sizeof_header < p" "hdr_next s (p - sizeof_header) \<noteq> used_head s"
  shows "myfree p s = Some (1, log_event Marker_test (log_event Range_test s))"
  using assms by (simp add: myfree_def Let_def c_defs)

lemma myfree_answer_1:
  assumes "myfree p s = Some (1, s')"
  shows "hdr_size s' = hdr_size s" "hdr_next s' = hdr_next s" "list_head s' = list_head s"
    "heap_size s' = heap_size s" "expansion_counter s' = expansion_counter s"
    "brk s' = brk s" "rejected p s"
  using assms
  by (auto simp: myfree_def Let_def rejected_def split: if_splits bind_splits)

subsection \<open>Paths\<close>

lemma chain_path: "chain nx p as = path nx p as NULL"
  by (induction as arbitrary: p) auto

lemma path_append:
  "path nx p (as @ bs) q \<longleftrightarrow> (\<exists>m. path nx p as m \<and> path nx m bs q)"
  by (induction as arbitrary: p) auto

lemma path_upd [simp]: "u \<notin> set as \<Longrightarrow> path (nx(u := v)) p as q = path nx p as q"
  by (induction as arbitrary: p) auto

lemma chain_append:
  "chain nx p (as @ bs) \<longleftrightarrow> (\<exists>m. path nx p as m \<and> chain nx m bs)"
  by (simp add: chain_path path_append)

lemma path_snoc: "path nx p (as @ [a]) q \<longleftrightarrow> path nx p as a \<and> a \<noteq> NULL \<and> nx a = q"
  by (auto simp: path_append)

subsection \<open>Blocks apart\<close>

lemma apart_Cons: "apart sz (a # as) \<Longrightarrow> apart sz as"
  by (cases as) auto

lemma apart_Cons_le:
  "apart sz (a # as) \<Longrightarrow> \<forall>x \<in> set as. a + unat (sz a) + sizeof_header \<le> x"
proof (induction as arbitrary: a)
  case Nil
  then show ?case by simp
next
  case (Cons b as)
  from Cons.prems have ab: "a + unat (sz a) + sizeof_header \<le> b" and "apart sz (b # as)"
    by simp_all
  from Cons.IH [OF this(2)] ab show ?case by fastforce
qed

lemma apart_split:
  "apart sz (xs @ f # ys) \<Longrightarrow>
   (\<forall>x \<in> set xs. x + unat (sz x) + sizeof_header \<le> f)
   \<and> (\<forall>y \<in> set ys. f + unat (sz f) + sizeof_header \<le> y)"
proof (induction xs)
  case Nil
  then show ?case by (simp add: apart_Cons_le)
next
  case (Cons x xs)
  from Cons.prems have "apart sz (xs @ f # ys)" by (auto dest: apart_Cons)
  with Cons.IH Cons.prems show ?case
    using apart_Cons_le [of sz x "xs @ f # ys"] by auto
qed

subsection \<open>Splitting a block\<close>

lemma shrink_free_head:
  assumes "list_head s = f" "f \<noteq> NULL"
  shows "shrink_free f sz s =
           Some (f, s\<lparr>list_head := f + unat sz + sizeof_header,
                      hdr_size := (hdr_size s)
                        (f + unat sz + sizeof_header := hdr_size s f - sz - of_nat sizeof_header,
                         f := sz),
                      hdr_next := (hdr_next s)
                        (f + unat sz + sizeof_header := hdr_next s f, f := used_head s)\<rparr>)"
  using assms by (simp add: shrink_free_def Let_def set_size_def set_next_def c_defs)

lemma shrink_free_inner:
  assumes "list_head s \<noteq> f" "shrink_free_loop f (list_head s) s = Some t" "hdr_next s t = f"
    "f \<noteq> NULL" "t \<noteq> f" "t \<noteq> f + unat sz + sizeof_header"
  shows "shrink_free f sz s =
           Some (f, s\<lparr>hdr_size := (hdr_size s)
                        (f + unat sz + sizeof_header := hdr_size s f - sz - of_nat sizeof_header,
                         f := sz),
                      hdr_next := (hdr_next s)
                        (t := f + unat sz + sizeof_header,
                         f + unat sz + sizeof_header := hdr_next s f, f := used_head s)\<rparr>)"
  using assms by (simp add: shrink_free_def Let_def set_size_def set_next_def c_defs)


lemma unat_remainder:
  fixes x y :: u32
  assumes "unat y + 16 \<le> unat x"
  shows "unat (x - y - 16) = unat x - unat y - 16"
  using assms by unat_arith

lemma map_replace_id: "f \<notin> set xs \<Longrightarrow> map (\<lambda>a. if a = f then n else a) xs = xs"
  by (induction xs) auto

lemma map_replace_split:
  "f \<notin> set xs \<Longrightarrow> f \<notin> set ys \<Longrightarrow>
   map (\<lambda>a. if a = f then n else a) (xs @ f # ys) = xs @ n # ys"
  by (simp add: map_replace_id)

subsection \<open>Blocks covering the heap\<close>

lemma tiles_append:
  "tiles sz a (xs @ ys) e \<longleftrightarrow> (\<exists>m. tiles sz a xs m \<and> tiles sz m ys e)"
  by (induction xs arbitrary: a) auto

lemma tiles_le: "tiles sz a bs e \<Longrightarrow> a \<le> e"
proof (induction bs arbitrary: a)
  case Nil
  then show ?case by simp
next
  case (Cons b bs)
  from Cons.prems have "tiles sz (b + unat (sz b) + sizeof_header) bs e" and "a = b"
    by simp_all
  with Cons.IH [OF this(1)] show ?case by simp
qed

lemma tiles_bounds:
  "tiles sz a bs e \<Longrightarrow> \<forall>b \<in> set bs. a \<le> b \<and> b + unat (sz b) + sizeof_header \<le> e"
proof (induction bs arbitrary: a)
  case Nil
  then show ?case by simp
next
  case (Cons b bs)
  from Cons.prems have t: "tiles sz (b + unat (sz b) + sizeof_header) bs e" and ab: "a = b"
    by simp_all
  from tiles_le [OF t] Cons.IH [OF t] ab show ?case by fastforce
qed

lemma tiles_split:
  assumes "tiles sz a (xs @ b # ys) e"
  shows "(\<forall>x \<in> set xs. a \<le> x \<and> x + unat (sz x) + sizeof_header \<le> b)
         \<and> (\<forall>y \<in> set ys. b + unat (sz b) + sizeof_header \<le> y
               \<and> y + unat (sz y) + sizeof_header \<le> e)
         \<and> a \<le> b \<and> b + unat (sz b) + sizeof_header \<le> e"
proof -
  from assms obtain m where x: "tiles sz a xs m" and y: "tiles sz m (b # ys) e"
    by (auto simp: tiles_append)
  from y have mb: "m = b" and t: "tiles sz (b + unat (sz b) + sizeof_header) ys e"
    by simp_all
  from tiles_bounds [OF x] tiles_bounds [OF t] tiles_le [OF x] tiles_le [OF t] mb
  show ?thesis by auto
qed

lemma tiles_distinct: "tiles sz a bs e \<Longrightarrow> distinct bs"
proof (induction bs arbitrary: a)
  case Nil
  then show ?case by simp
next
  case (Cons b bs)
  from Cons.prems have t: "tiles sz (b + unat (sz b) + sizeof_header) bs e" by simp
  from tiles_bounds [OF t] have "b \<notin> set bs" by (auto simp: sizeof_header_def)
  with Cons.IH [OF t] show ?case by simp
qed

lemma tiles_upd [simp]: "u \<notin> set bs \<Longrightarrow> tiles (sz(u := v)) a bs e = tiles sz a bs e"
  by (induction bs arbitrary: a) auto

lemma apart_ConsI:
  "apart sz as \<Longrightarrow> \<forall>x \<in> set as. a + unat (sz a) + sizeof_header \<le> x \<Longrightarrow> apart sz (a # as)"
  by (cases as) auto

lemma tiles_apart_filter: "tiles sz a bs e \<Longrightarrow> apart sz (filter P bs)"
proof (induction bs arbitrary: a)
  case Nil
  then show ?case by simp
next
  case (Cons b bs)
  from Cons.prems have t: "tiles sz (b + unat (sz b) + sizeof_header) bs e" by simp
  from tiles_bounds [OF t]
  have "\<forall>x \<in> set (filter P bs). b + unat (sz b) + sizeof_header \<le> x" by auto
  with Cons.IH [OF t] show ?case by (auto intro: apart_ConsI)
qed

lemma tiles_sum:
  "tiles sz a bs e \<Longrightarrow> e = a + sum_list (map (\<lambda>b. unat (sz b) + sizeof_header) bs)"
proof (induction bs arbitrary: a)
  case Nil
  then show ?case by simp
next
  case (Cons b bs)
  from Cons.prems have t: "tiles sz (b + unat (sz b) + sizeof_header) bs e" and ab: "a = b"
    by simp_all
  from Cons.IH [OF t] ab show ?case by simp
qed

lemma heap_blocks_from_tiles:
  "tiles (hdr_size s) a bs (heap_end s) \<Longrightarrow> heap_blocks_from s a = bs"
proof (induction bs arbitrary: a)
  case Nil
  then show ?case
    by (subst heap_blocks_from.simps) (simp add: sizeof_header_def)
next
  case (Cons b bs)
  from Cons.prems have t: "tiles (hdr_size s) (b + unat (hdr_size s b) + sizeof_header) bs (heap_end s)"
    and ab: "a = b" by simp_all
  from tiles_le [OF t] have "b + sizeof_header \<le> heap_end s" by simp
  with Cons.IH [OF t] ab show ?case
    by (subst heap_blocks_from.simps) simp
qed

lemma heap_inv_blocks: "heap_inv s bs \<Longrightarrow> heap_blocks s = bs"
  unfolding heap_inv_def heap_blocks_def by (blast intro: heap_blocks_from_tiles)

lemma filter_nonempty_last: "bs \<noteq> [] \<Longrightarrow> P (last bs) \<Longrightarrow> filter P bs \<noteq> []"
  by (auto simp: filter_empty_conv)

lemma last_filter: "bs \<noteq> [] \<Longrightarrow> P (last bs) \<Longrightarrow> last (filter P bs) = last bs"
proof (induction bs)
  case Nil
  then show ?case by simp
next
  case (Cons b bs)
  show ?case
  proof (cases "bs = []")
    case True
    with Cons.prems show ?thesis by simp
  next
    case False
    with Cons.prems have "P (last bs)" by simp
    with False Cons.IH filter_nonempty_last [of bs P] show ?thesis by simp
  qed
qed

subsection \<open>Initialisation\<close>

lemma mymalloc_init_granted:
  assumes "\<not> refused PAGE_SIZE s"
  shows "mymalloc_init s =
    (0, s\<lparr>hdr_size := (hdr_size s)(brk s + sizeof_free_list := 4032),
           hdr_next := (hdr_next s)(brk s + sizeof_free_list := NULL),
           list_head := brk s + sizeof_free_list, head_list := brk s, used_head := FAILED,
           expansion_counter := 1, heap_size := 4096, heap_head := brk s, lock_trace := [],
           brk := brk s + PAGE_SIZE, sbrk_calls := Suc (sbrk_calls s)\<rparr>)"
proof -
  from assms have g: "os_grants s (sbrk_calls s)" "brk s + PAGE_SIZE < FAILED"
    by (simp_all add: refused_iff)
  then have "brk s \<noteq> FAILED" by simp
  with g show ?thesis
    by (simp add: mymalloc_init_def sbrk_def Let_def set_size_def set_next_def PAGE_SIZE_def
        sizeof_header_def sizeof_free_list_def)
qed

lemma mymalloc_init_refused:
  assumes "refused PAGE_SIZE s"
  shows "fst (mymalloc_init s) = 1"
proof -
  from assms have "\<not> (os_grants s (sbrk_calls s) \<and> brk s + PAGE_SIZE < FAILED)"
    by (simp add: refused_iff)
  then show ?thesis
    by (auto simp: mymalloc_init_def sbrk_def Let_def)
qed

lemma mymalloc_init_heap_inv:
  assumes "mymalloc_init s0 = (0, s)"
  shows "heap_inv s [heap_head s + sizeof_free_list]"
    and "\<not> allocated s (heap_head s + sizeof_free_list)"
proof -
  have g: "\<not> refused PAGE_SIZE s0"
    using assms mymalloc_init_refused [of s0] by auto
  then have b: "brk s0 + PAGE_SIZE < FAILED" by (simp add: refused_iff)
  from mymalloc_init_granted [OF g] assms
  have s: "s = s0\<lparr>hdr_size := (hdr_size s0)(brk s0 + sizeof_free_list := 4032),
           hdr_next := (hdr_next s0)(brk s0 + sizeof_free_list := NULL),
           list_head := brk s0 + sizeof_free_list, head_list := brk s0, used_head := FAILED,
           expansion_counter := 1, heap_size := 4096, heap_head := brk s0, lock_trace := [],
           brk := brk s0 + PAGE_SIZE, sbrk_calls := Suc (sbrk_calls s0)\<rparr>"
    by simp
  show "\<not> allocated s (heap_head s + sizeof_free_list)"
    by (simp add: s allocated_def c_defs)
  with b show "heap_inv s [heap_head s + sizeof_free_list]"
    by (simp add: heap_inv_def heap_end_def) (simp add: s c_defs)
qed


subsection \<open>The effect of a split\<close>

lemma shrink_free_effect:
  assumes c: "chain (hdr_next s) (list_head s) fl" and a: "apart (hdr_size s) fl"
    and f: "f \<in> set fl" and fit: "fits sz s f"
    and n: "n = f + unat sz + sizeof_header"
  shows "\<exists>nx'. shrink_free f sz s =
             Some (f, s\<lparr>list_head := (if list_head s = f then n else list_head s),
                        hdr_size := (hdr_size s)
                          (n := hdr_size s f - sz - of_nat sizeof_header, f := sz),
                        hdr_next := nx'\<rparr>)
           \<and> nx' f = used_head s \<and> nx' n = hdr_next s f
           \<and> (\<forall>a. a \<noteq> f \<and> a \<noteq> n \<longrightarrow>
                  nx' a = hdr_next s a \<or> hdr_next s a = f \<and> nx' a = n)
           \<and> chain nx' (if list_head s = f then n else list_head s)
               (map (\<lambda>a. if a = f then n else a) fl)"
proof -
  from f obtain xs ys where fl: "fl = xs @ f # ys"
    by (auto simp: in_set_conv_decomp)
  from chain_distinct [OF c] fl have d: "f \<notin> set xs" "f \<notin> set ys" "distinct xs"
    "distinct ys" "set xs \<inter> set ys = {}"
    by auto
  from c have nn: "NULL \<notin> set fl" by (rule chain_nonnull)
  with f have fn: "f \<noteq> NULL" by auto
  from a fl have ap: "\<forall>x \<in> set xs. x + unat (hdr_size s x) + sizeof_header \<le> f"
    "\<forall>y \<in> set ys. f + unat (hdr_size s f) + sizeof_header \<le> y"
    by (auto dest: apart_split)
  from fit have fit': "unat sz + 16 \<le> unat (hdr_size s f)"
    by (simp add: fits_def c_defs)
  from ap fit' have nf: "n \<notin> set xs" "n \<notin> set ys" "n \<noteq> f"
    by (auto simp: n c_defs)
  have m: "map (\<lambda>a. if a = f then n else a) fl = xs @ n # ys"
    unfolding fl using d(1,2) by (rule map_replace_split)
  from c fl have ys: "chain (hdr_next s) (hdr_next s f) ys"
    by (auto simp: chain_append)
  have nn': "n \<noteq> NULL" by (simp add: n c_defs)
  show ?thesis
  proof (cases xs rule: rev_cases)
    case Nil
    with c fl have h: "list_head s = f" by simp
    define nx' where "nx' = (hdr_next s)(n := hdr_next s f, f := used_head s)"
    have r: "shrink_free f sz s =
             Some (f, s\<lparr>list_head := (if list_head s = f then n else list_head s),
                        hdr_size := (hdr_size s)
                          (n := hdr_size s f - sz - of_nat sizeof_header, f := sz),
                        hdr_next := nx'\<rparr>)"
      using shrink_free_head [OF h fn, of sz] h by (simp add: nx'_def n)
    have "chain nx' n (n # ys)"
      using ys nf d nn' by (simp add: nx'_def)
    with Nil h have ch: "chain nx' (if list_head s = f then n else list_head s) (xs @ n # ys)"
      by simp
    have "nx' f = used_head s" "nx' n = hdr_next s f"
      "\<forall>a. a \<noteq> f \<and> a \<noteq> n \<longrightarrow> nx' a = hdr_next s a \<or> hdr_next s a = f \<and> nx' a = n"
      using nf by (simp_all add: nx'_def)
    with r ch show ?thesis
      unfolding m by blast
  next
    case (snoc xs' t)
    with c fl have h: "list_head s \<noteq> f"
      using d by (cases xs') auto
    from c fl snoc have lp: "shrink_free_loop f (list_head s) s = Some t"
      by (auto intro: shrink_free_loop_chain)
    from c fl snoc have pt: "path (hdr_next s) (list_head s) xs' t" "t \<noteq> NULL"
      "hdr_next s t = f"
      by (auto simp: chain_append path_snoc)
    from d nf snoc have tn: "t \<noteq> f" "t \<noteq> n" "t \<notin> set xs'" "f \<notin> set xs'" "n \<notin> set xs'"
      "t \<notin> set ys"
      by auto
    define nx' where "nx' = (hdr_next s)(t := n, n := hdr_next s f, f := used_head s)"
    have r: "shrink_free f sz s =
             Some (f, s\<lparr>list_head := (if list_head s = f then n else list_head s),
                        hdr_size := (hdr_size s)
                          (n := hdr_size s f - sz - of_nat sizeof_header, f := sz),
                        hdr_next := nx'\<rparr>)"
      using shrink_free_inner [OF h lp pt(3) fn tn(1), of sz] tn(2) h
      by (simp add: nx'_def n)
    have "chain nx' (list_head s) (xs' @ t # n # ys)"
      using pt ys tn nf d nn' by (simp add: nx'_def chain_append) 
    with snoc h have ch: "chain nx' (if list_head s = f then n else list_head s) (xs @ n # ys)"
      by simp
    have "nx' f = used_head s" "nx' n = hdr_next s f"
      "\<forall>a. a \<noteq> f \<and> a \<noteq> n \<longrightarrow> nx' a = hdr_next s a \<or> hdr_next s a = f \<and> nx' a = n"
      using nf tn pt(3) by (simp_all add: nx'_def)
    with r ch show ?thesis
      unfolding m by blast
  qed
qed


lemma heap_invD:
  assumes "heap_inv s bs"
  shows "tiles (hdr_size s) (heap_head s + sizeof_free_list) bs (heap_end s)"
    and "chain (hdr_next s) (list_head s) (filter (\<lambda>b. \<not> allocated s b) bs)"
    and "bs \<noteq> []" and "\<not> allocated s (last bs)"
    and "used_head s = FAILED" and "heap_end s = brk s" and "brk s < FAILED"
  using assms unfolding heap_inv_def by blast+

lemma heap_inv_cong:
  assumes "hdr_size s' = hdr_size s" "hdr_next s' = hdr_next s" "list_head s' = list_head s"
    "used_head s' = used_head s" "heap_size s' = heap_size s" "heap_head s' = heap_head s"
    "brk s' = brk s"
  shows "heap_inv s' bs = heap_inv s bs"
  unfolding heap_inv_def heap_end_def allocated_def assms ..

lemma heap_inv_addr:
  assumes "heap_inv s bs" "b \<in> set bs"
  shows "b \<noteq> NULL" "b < FAILED" "b \<noteq> used_head s" "b + sizeof_header \<le> heap_end s"
    "heap_head s + sizeof_free_list \<le> b"
proof -
  from assms have "heap_head s + sizeof_free_list \<le> b \<and> b + unat (hdr_size s b) + sizeof_header \<le> heap_end s"
    by (auto simp: heap_inv_def dest: tiles_bounds)
  moreover from assms have "heap_end s < FAILED" "used_head s = FAILED"
    by (auto simp: heap_inv_def)
  ultimately show "b \<noteq> NULL" "b < FAILED" "b \<noteq> used_head s" "b + sizeof_header \<le> heap_end s"
    "heap_head s + sizeof_free_list \<le> b"
    by (auto simp: c_defs)
qed

lemma shrink_free_heap_inv:
  assumes inv: "heap_inv s (xs @ f # ys)" and fr: "\<not> allocated s f" and fit: "fits sz s f"
    and n: "n = f + unat sz + sizeof_header"
  shows "\<exists>s'. shrink_free f sz s = Some (f, s')
           \<and> heap_inv s' (xs @ f # n # ys)
           \<and> allocated s' f \<and> \<not> allocated s' n \<and> hdr_size s' f = sz
           \<and> (\<forall>b \<in> set (xs @ ys). allocated s' b = allocated s b)
           \<and> (\<forall>b \<in> set (xs @ ys). hdr_size s' b = hdr_size s b)
           \<and> frame s s'"
proof -
  let ?F = "filter (\<lambda>b. \<not> allocated s b)"
  let ?bs = "xs @ f # ys"
  note t = heap_invD(1) [OF inv] and c = heap_invD(2) [OF inv] and l = heap_invD(4) [OF inv]
    and u = heap_invD(5) [OF inv] and e = heap_invD(6,7) [OF inv]
  from t have ap: "apart (hdr_size s) (?F ?bs)" by (rule tiles_apart_filter)
  from fr have fin: "f \<in> set (?F ?bs)" by simp
  from shrink_free_effect [OF c ap fin fit n]
  obtain nx' where r: "shrink_free f sz s =
             Some (f, s\<lparr>list_head := (if list_head s = f then n else list_head s),
                        hdr_size := (hdr_size s)
                          (n := hdr_size s f - sz - of_nat sizeof_header, f := sz),
                        hdr_next := nx'\<rparr>)"
    and nf: "nx' f = used_head s" and nn: "nx' n = hdr_next s f"
    and no: "\<forall>a. a \<noteq> f \<and> a \<noteq> n \<longrightarrow> nx' a = hdr_next s a \<or> hdr_next s a = f \<and> nx' a = n"
    and ch: "chain nx' (if list_head s = f then n else list_head s)
               (map (\<lambda>a. if a = f then n else a) (?F ?bs))"
    by blast
  define s' where "s' = s\<lparr>list_head := (if list_head s = f then n else list_head s),
                        hdr_size := (hdr_size s)
                          (n := hdr_size s f - sz - of_nat sizeof_header, f := sz),
                        hdr_next := nx'\<rparr>"
  from fit have fit': "unat sz + 16 \<le> unat (hdr_size s f)"
    by (simp add: fits_def c_defs)
  from tiles_split [OF t] tiles_distinct [OF t]
  have o: "\<forall>x \<in> set xs. x + unat (hdr_size s x) + sizeof_header \<le> f"
    "\<forall>y \<in> set ys. f + unat (hdr_size s f) + sizeof_header \<le> y"
    "f + unat (hdr_size s f) + sizeof_header \<le> heap_end s"
    and d: "f \<notin> set xs" "f \<notin> set ys"
    by auto
  from o fit' have ni: "n \<notin> set xs" "n \<notin> set ys" "n \<noteq> f"
    by (auto simp: n c_defs)
  from o fit' e have nb: "n < FAILED" "f < FAILED" by (auto simp: n c_defs)
  have st: "\<forall>b \<in> set (xs @ ys). allocated s' b = allocated s b"
  proof
    fix b assume b: "b \<in> set (xs @ ys)"
    with d ni have "b \<noteq> f" "b \<noteq> n" by auto
    with no have "nx' b = hdr_next s b \<or> hdr_next s b = f \<and> nx' b = n" by blast
    with nb u show "allocated s' b = allocated s b"
      by (auto simp: allocated_def s'_def)
  qed
  have af: "allocated s' f" "\<not> allocated s' n"
    using nf nn fr by (simp_all add: allocated_def s'_def)
  have fx: "filter (\<lambda>b. \<not> allocated s' b) xs = ?F xs"
    "filter (\<lambda>b. \<not> allocated s' b) ys = ?F ys"
    using st by (auto intro: filter_cong)
  have m: "map (\<lambda>a. if a = f then n else a) (?F ?bs) = ?F xs @ n # ?F ys"
    using fr d by (simp add: map_replace_id)
  have eq: "n + unat (hdr_size s f - sz - of_nat sizeof_header) + sizeof_header
            = f + unat (hdr_size s f) + sizeof_header"
    using unat_remainder [OF fit'] fit' by (simp add: n c_defs)
  from t obtain m where tx: "tiles (hdr_size s) (heap_head s + sizeof_free_list) xs m"
    and tf: "m = f" and ty: "tiles (hdr_size s) (f + unat (hdr_size s f) + sizeof_header) ys (heap_end s)"
    by (auto simp: tiles_append)
  have t': "tiles (hdr_size s') (heap_head s' + sizeof_free_list) (xs @ f # n # ys) (heap_end s')"
    unfolding tiles_append
  proof (intro exI conjI)
    show "tiles (hdr_size s') (heap_head s' + sizeof_free_list) xs f"
      using tx tf d ni by (simp add: s'_def)
    have "tiles (hdr_size s') (n + unat (hdr_size s' n) + sizeof_header) ys (heap_end s')"
      using ty d ni eq by (simp add: s'_def heap_end_def)
    then show "tiles (hdr_size s') f (f # n # ys) (heap_end s')"
      using ni by (simp add: s'_def n)
  qed
  have c': "chain (hdr_next s') (list_head s') (filter (\<lambda>b. \<not> allocated s' b) (xs @ f # n # ys))"
    using ch af fx unfolding m by (simp add: s'_def)
  have l': "\<not> allocated s' (last (xs @ f # n # ys))"
    using l af st by (cases ys rule: rev_cases) auto
  have "heap_inv s' (xs @ f # n # ys)"
    unfolding heap_inv_def using t' c' l' u e by (simp add: s'_def heap_end_def)
  moreover have "hdr_size s' f = sz" "\<forall>b \<in> set (xs @ ys). hdr_size s' b = hdr_size s b"
    using d ni by (auto simp: s'_def)
  moreover have "frame s s'"
    by (simp add: s'_def frame_def)
  ultimately show ?thesis using r af st unfolding s'_def [symmetric] by blast
qed


subsection \<open>The effect of an expansion\<close>

lemma unat_add_u32:
  fixes x y :: u32
  shows "unat x + unat y < 2 ^ 32 \<Longrightarrow> unat (x + y) = unat x + unat y"
  using unat_add_lem [of x y] by simp

lemma expand_heap_granted:
  assumes g: "\<not> refused (unat n) s" and n: "n = of_nat PAGE_SIZE * expansion_counter s"
    and c: "chain (hdr_next s) (list_head s) fl" and ne: "fl \<noteq> []"
  shows "expand_heap s =
           Some (n, s\<lparr>hdr_size := (hdr_size s)(last fl := hdr_size s (last fl) + n),
                      expansion_counter := expansion_counter s + 1,
                      heap_size := heap_size s + n,
                      brk := brk s + unat n, sbrk_calls := Suc (sbrk_calls s)\<rparr>)"
proof -
  from g have g': "os_grants s (sbrk_calls s)" "brk s + unat n < FAILED"
    by (simp_all add: refused_iff)
  then have b: "brk s \<noteq> FAILED" by simp
  let ?s2 = "s\<lparr>expansion_counter := expansion_counter s + 1,
               sbrk_calls := Suc (sbrk_calls s), brk := brk s + unat n\<rparr>"
  have "chain (hdr_next ?s2) (list_head s) fl" using c by simp
  from expand_heap_loop_chain [OF this ne]
  have "expand_heap_loop (list_head s) ?s2 = Some (last fl)" .
  with g' b show ?thesis
    by (simp add: expand_heap_def sbrk_def Let_def n [symmetric] set_size_def)
qed

lemma expand_heap_heap_inv:
  assumes inv: "heap_inv s bs"
  shows "\<exists>r s'. expand_heap s = Some (r, s')
           \<and> (\<exists>sz' c' z' b' k'. s' = s\<lparr>hdr_size := sz', expansion_counter := c',
                  heap_size := z', brk := b', sbrk_calls := k'\<rparr>)
           \<and> brk s \<le> brk s'
           \<and> (bounded s' \<longrightarrow> heap_inv s' bs)"
proof -
  define n where "n = of_nat PAGE_SIZE * expansion_counter s"
  let ?F = "filter (\<lambda>b. \<not> allocated s b)"
  note t = heap_invD(1) [OF inv] and c = heap_invD(2) [OF inv] and ne = heap_invD(3) [OF inv]
    and l = heap_invD(4) [OF inv] and u = heap_invD(5) [OF inv] and e = heap_invD(6,7) [OF inv]
  show ?thesis
  proof (cases "refused (unat n) s")
    case True
    define s' where "s' = s\<lparr>expansion_counter := expansion_counter s + 1,
                      sbrk_calls := Suc (sbrk_calls s)\<rparr>"
    from True have r: "expand_heap s = Some (0, s')"
      unfolding s'_def n_def by (rule expand_heap_refusal)
    have "heap_inv s' bs = heap_inv s bs"
      by (rule heap_inv_cong) (simp_all add: s'_def)
    with inv have "heap_inv s' bs" by simp
    moreover have "\<exists>sz' c' z' b' k'. s' = s\<lparr>hdr_size := sz', expansion_counter := c',
                  heap_size := z', brk := b', sbrk_calls := k'\<rparr>"
      by (rule exI [of _ "hdr_size s"], rule exI [of _ "expansion_counter s + 1"],
          rule exI [of _ "heap_size s"], rule exI [of _ "brk s"],
          rule exI [of _ "Suc (sbrk_calls s)"]) (simp add: s'_def)
    moreover have "brk s \<le> brk s'" by (simp add: s'_def)
    ultimately show ?thesis using r by blast
  next
    case False
    define t where "t = last bs"
    from ne l have fne: "?F bs \<noteq> []" and lf: "last (?F bs) = t"
      unfolding t_def by (simp_all add: filter_nonempty_last last_filter)
    define s' where "s' = s\<lparr>hdr_size := (hdr_size s)(t := hdr_size s t + n),
                      expansion_counter := expansion_counter s + 1,
                      heap_size := heap_size s + n,
                      brk := brk s + unat n, sbrk_calls := Suc (sbrk_calls s)\<rparr>"
    have r: "expand_heap s = Some (n, s')"
      using expand_heap_granted [OF False n_def c fne] by (simp add: lf s'_def)
    have "heap_inv s' bs" if bd: "bounded s'"
    proof -
      from bd e have w: "unat (heap_size s) + unat n < 2 ^ 32"
        by (simp add: bounded_def s'_def heap_end_def)
      from ne obtain xs where bs: "bs = xs @ [t]"
        unfolding t_def by (metis append_butlast_last_id)
      from t bs have tx: "tiles (hdr_size s) (heap_head s + sizeof_free_list) xs t"
        and te: "t + unat (hdr_size s t) + sizeof_header = heap_end s"
        by (auto simp: tiles_append)
      from tiles_le [OF tx] te have "unat (hdr_size s t) \<le> unat (heap_size s)"
        by (simp add: heap_end_def)
      with w have w': "unat (hdr_size s t + n) = unat (hdr_size s t) + unat n"
        by (intro unat_add_u32) simp
      from w have w'': "unat (heap_size s + n) = unat (heap_size s) + unat n"
        by (rule unat_add_u32)
      from tiles_distinct [OF t] bs have tn: "t \<notin> set xs" by simp
      have t': "tiles (hdr_size s') (heap_head s' + sizeof_free_list) bs (heap_end s')"
        using tx te tn w' w'' by (simp add: bs tiles_append s'_def heap_end_def)
      have "\<And>b. allocated s' b = allocated s b"
        by (simp add: allocated_def s'_def)
      then have a': "allocated s' = allocated s" by blast
      have c': "chain (hdr_next s') (list_head s') (filter (\<lambda>b. \<not> allocated s' b) bs)"
        using c unfolding a' by (simp add: s'_def)
      from False have "brk s + unat n < FAILED" by (simp add: refused_iff)
      with t' c' ne l u e w'' show ?thesis
        unfolding heap_inv_def a' by (simp add: s'_def heap_end_def)
    qed
    moreover have "\<exists>sz' c' z' b' k'. s' = s\<lparr>hdr_size := sz', expansion_counter := c',
                  heap_size := z', brk := b', sbrk_calls := k'\<rparr>"
      unfolding s'_def by blast
    moreover have "brk s \<le> brk s'" by (simp add: s'_def)
    ultimately show ?thesis using r by blast
  qed
qed


text \<open>
  C6. On a well-formed free list whose blocks do not overlap, for a block \<open>f\<close> of the
  list that has room for the request and one header, \<open>shrink_free\<close> returns \<open>f\<close>; the
  header at \<open>f\<close> gets the requested size and the marker; the header right behind the
  payload gets the size that is left (the old size minus the request minus one
  header, which does not wrap) and takes the place of \<open>f\<close> in the list: it is the new
  head when \<open>f\<close> was the head, the successor of the predecessor of \<open>f\<close> otherwise.
\<close>

theorem shrink_free_carves_front:
  assumes c: "chain (hdr_next s) (list_head s) fl" and a: "apart (hdr_size s) fl"
    and f: "f \<in> set fl" and fit: "fits sz s f"
  shows "\<exists>s'. shrink_free f sz s = Some (f, s')
           \<and> hdr_size s' f = sz \<and> hdr_next s' f = used_head s
           \<and> hdr_size s' (f + unat sz + sizeof_header)
               = hdr_size s f - sz - of_nat sizeof_header
           \<and> unat (hdr_size s f - sz - of_nat sizeof_header)
               = unat (hdr_size s f) - unat sz - sizeof_header
           \<and> chain (hdr_next s') (list_head s')
               (map (\<lambda>a. if a = f then f + unat sz + sizeof_header else a) fl)
           \<and> list_head s' = (if list_head s = f then f + unat sz + sizeof_header
                              else list_head s)"
proof -
  define n where "n = f + unat sz + sizeof_header"
  from fit have fit': "unat sz + 16 \<le> unat (hdr_size s f)"
    by (simp add: fits_def c_defs)
  have rem: "unat (hdr_size s f - sz - of_nat sizeof_header)
               = unat (hdr_size s f) - unat sz - sizeof_header"
    using unat_remainder [OF fit'] by (simp add: c_defs)
  have nf: "n \<noteq> f" by (simp add: n_def c_defs)
  from shrink_free_effect [OF c a f fit n_def]
  obtain nx' where r: "shrink_free f sz s =
             Some (f, s\<lparr>list_head := (if list_head s = f then n else list_head s),
                        hdr_size := (hdr_size s)
                          (n := hdr_size s f - sz - of_nat sizeof_header, f := sz),
                        hdr_next := nx'\<rparr>)"
    and "nx' f = used_head s"
    and "chain nx' (if list_head s = f then n else list_head s)
               (map (\<lambda>a. if a = f then n else a) fl)"
    by blast
  with rem nf show ?thesis
    unfolding n_def [symmetric] by simp
qed

subsection \<open>Merging a free block with the next one\<close>

lemma coalescing_merge:
  assumes "p \<noteq> NULL" "p + unat (hdr_size s p) + sizeof_header = hdr_next s p"
  shows "coalescing p s =
           Some (s\<lparr>hdr_size := (hdr_size s)
                      (p := hdr_size s p + (hdr_size s (hdr_next s p) + of_nat sizeof_header)),
                    hdr_next := (hdr_next s)(p := hdr_next s (hdr_next s p))\<rparr>)"
proof -
  from assms(2) have "hdr_next s p \<noteq> p" by (simp add: c_defs)
  with assms show ?thesis
    by (simp add: coalescing_def Let_def set_size_def set_next_def)
qed

lemma coalescing_skip:
  assumes "p \<noteq> NULL" "p + unat (hdr_size s p) + sizeof_header \<noteq> hdr_next s p"
  shows "coalescing p s = Some s"
  using assms by (simp add: coalescing_def)

lemma unat_add_header:
  fixes x y :: u32
  assumes "unat x + unat y + 16 < 2 ^ 32"
  shows "unat (x + (y + 16)) = unat x + unat y + 16"
proof -
  from assms have "unat y + unat (16::u32) < 2 ^ 32" by simp
  then have y: "unat (y + 16) = unat y + 16" using unat_add_u32 [of y 16] by simp
  with assms have "unat x + unat (y + 16) < 2 ^ 32" by simp
  then have "unat (x + (y + 16)) = unat x + unat (y + 16)" by (rule unat_add_u32)
  with y show ?thesis by simp
qed

lemma filter_eqI: "(\<And>x. x \<in> set xs \<Longrightarrow> P x = Q x) \<Longrightarrow> filter P xs = filter Q xs"
  by (rule filter_cong) auto

lemma filter_hd_in: "filter P ys \<noteq> [] \<Longrightarrow> hd (filter P ys) \<in> set ys"
  by (metis filter_is_subset hd_in_set subsetD)

lemma coalescing_heap_inv:
  assumes inv: "heap_inv s (xs @ p # ys)" and fr: "\<not> allocated s p"
  shows "\<exists>s' ys'. coalescing p s = Some s' \<and> heap_inv s' (xs @ p # ys')
          \<and> frame s s' \<and> list_head s' = list_head s
          \<and> (\<forall>x. x \<noteq> p \<longrightarrow> hdr_next s' x = hdr_next s x \<and> hdr_size s' x = hdr_size s x)
          \<and> \<not> allocated s' p
          \<and> live s' (xs @ p # ys') = live s (xs @ p # ys)
          \<and> (\<forall>lo hi. covers s (xs @ p # ys) lo hi \<longrightarrow> covers s' (xs @ p # ys') lo hi)
          \<and> set ys' \<subseteq> set ys"
proof -
  let ?F = "filter (\<lambda>b. \<not> allocated s b)"
  let ?bs = "xs @ p # ys"
  note t = heap_invD(1) [OF inv] and c = heap_invD(2) [OF inv] and l = heap_invD(4) [OF inv]
    and u = heap_invD(5) [OF inv] and e = heap_invD(6,7) [OF inv]
  have pn: "p \<noteq> NULL" using heap_inv_addr(1) [OF inv, of p] by simp
  have same: "\<exists>s' ys'. coalescing p s = Some s' \<and> heap_inv s' (xs @ p # ys')
          \<and> frame s s' \<and> list_head s' = list_head s
          \<and> (\<forall>x. x \<noteq> p \<longrightarrow> hdr_next s' x = hdr_next s x \<and> hdr_size s' x = hdr_size s x)
          \<and> \<not> allocated s' p
          \<and> live s' (xs @ p # ys') = live s (xs @ p # ys)
          \<and> (\<forall>lo hi. covers s (xs @ p # ys) lo hi \<longrightarrow> covers s' (xs @ p # ys') lo hi)
          \<and> set ys' \<subseteq> set ys"
    if "coalescing p s = Some s"
  proof -
    have "frame s s" by (simp add: frame_def)
    with that inv fr show ?thesis by blast
  qed
  from c fr obtain m where px: "path (hdr_next s) (list_head s) (?F xs) m"
    and cp: "chain (hdr_next s) m (p # ?F ys)"
    by (auto simp: chain_append)
  from cp have cy: "chain (hdr_next s) (hdr_next s p) (?F ys)" and mp: "m = p" by simp_all
  from tiles_split [OF t] have o: "\<forall>y \<in> set ys. p + unat (hdr_size s p) + sizeof_header \<le> y"
    and pe: "p + unat (hdr_size s p) + sizeof_header \<le> heap_end s"
    and hp: "heap_head s + sizeof_free_list \<le> p"
    by auto
  show ?thesis
  proof (cases ys)
    case Nil
    with cy have "hdr_next s p = NULL" by simp
    then have "p + unat (hdr_size s p) + sizeof_header \<noteq> hdr_next s p"
      by (simp add: c_defs)
    from coalescing_skip [OF pn this] show ?thesis by (rule same)
  next
    case (Cons q zs)
    from t Cons have pq: "p + unat (hdr_size s p) + sizeof_header = q"
      and tz: "tiles (hdr_size s) (q + unat (hdr_size s q) + sizeof_header) zs (heap_end s)"
      by (auto simp: tiles_append)
    show ?thesis
    proof (cases "allocated s q")
      case True
      have "hdr_next s p \<noteq> q"
      proof (cases "?F zs")
        case Nil
        with cy Cons True have "hdr_next s p = NULL" by simp
        with pq show ?thesis by (auto simp: c_defs)
      next
        case (Cons z zs')
        with cy \<open>ys = q # zs\<close> True have "hdr_next s p = hd (?F zs)" by simp
        moreover from Cons have "hd (?F zs) \<in> set zs"
          by (intro filter_hd_in) simp
        moreover from tiles_bounds [OF tz]
        have "\<forall>z \<in> set zs. q < z" by (auto simp: c_defs)
        ultimately show ?thesis by auto
      qed
      with pq have "p + unat (hdr_size s p) + sizeof_header \<noteq> hdr_next s p" by simp
      from coalescing_skip [OF pn this] show ?thesis by (rule same)
    next
      case False
      with cy Cons have npq: "hdr_next s p = q" and cz: "chain (hdr_next s) (hdr_next s q) (?F zs)"
        by simp_all
      define s' where "s' = s\<lparr>hdr_size := (hdr_size s)
                      (p := hdr_size s p + (hdr_size s q + of_nat sizeof_header)),
                    hdr_next := (hdr_next s)(p := hdr_next s q)\<rparr>"
      from pq npq have r: "coalescing p s = Some s'"
        using coalescing_merge [OF pn, of s] by (simp add: s'_def)
      have "unat (heap_size s) < 2 ^ 32"
        using unsigned_less [of "heap_size s", where ?'a = nat] by simp
      with tiles_le [OF tz] hp pq
      have "unat (hdr_size s p) + unat (hdr_size s q) + 16 < 2 ^ 32"
        unfolding heap_end_def sizeof_header_def sizeof_free_list_def by linarith
      then have w: "unat (hdr_size s p + (hdr_size s q + of_nat sizeof_header))
                    = unat (hdr_size s p) + unat (hdr_size s q) + sizeof_header"
        unfolding sizeof_header_def using unat_add_header by simp
      from tiles_distinct [OF t] Cons have d: "p \<notin> set xs" "p \<notin> set zs" "p \<noteq> q"
        "q \<notin> set xs" "q \<notin> set zs"
        by auto
      from t obtain tx: "tiles (hdr_size s) (heap_head s + sizeof_free_list) xs p"
        by (auto simp: tiles_append)
      have t': "tiles (hdr_size s') (heap_head s' + sizeof_free_list) (xs @ p # zs) (heap_end s')"
        unfolding tiles_append
      proof (intro exI conjI)
        show "tiles (hdr_size s') (heap_head s' + sizeof_free_list) xs p"
          using tx d by (simp add: s'_def)
        have eq: "p + unat (hdr_size s' p) + sizeof_header
                  = q + unat (hdr_size s q) + sizeof_header"
          using w pq by (simp add: s'_def)
        have "tiles (hdr_size s') (p + unat (hdr_size s' p) + sizeof_header) zs (heap_end s')"
          unfolding eq using tz d by (simp add: s'_def heap_end_def)
        then show "tiles (hdr_size s') p (p # zs) (heap_end s')"
          by simp
      qed
      have st: "\<forall>x \<in> set xs \<union> set zs. allocated s' x = allocated s x"
        using d by (auto simp: allocated_def s'_def)
      from False u have fp: "\<not> allocated s' p"
        by (simp add: allocated_def s'_def)
      have fx: "filter (\<lambda>b. \<not> allocated s' b) xs = ?F xs"
        "filter (\<lambda>b. \<not> allocated s' b) zs = ?F zs"
      proof -
        show "filter (\<lambda>b. \<not> allocated s' b) xs = ?F xs"
          using st by (intro filter_eqI) simp
        show "filter (\<lambda>b. \<not> allocated s' b) zs = ?F zs"
          using st by (intro filter_eqI) simp
      qed
      from chain_distinct [OF c] fr False Cons
      have dd: "p \<notin> set (?F xs)" "p \<notin> set (?F zs)" by auto
      have c': "chain (hdr_next s') (list_head s')
                  (filter (\<lambda>b. \<not> allocated s' b) (xs @ p # zs))"
        using px mp cz dd fp pn by (simp add: fx chain_append) (simp add: s'_def)
      have l': "\<not> allocated s' (last (xs @ p # zs))"
        using l fp st d Cons by (cases zs rule: rev_cases) auto
      have inv': "heap_inv s' (xs @ p # zs)"
        unfolding heap_inv_def using t' c' l' u e by (simp add: s'_def heap_end_def)
      have fr': "frame s s' \<and> list_head s' = list_head s"
        by (simp add: s'_def frame_def)
      have lv: "live s' (xs @ p # zs) = live s (xs @ p # ys)"
        using st fp fr False d Cons by (auto simp: live_def)
      have cv: "covers s' (xs @ p # zs) lo hi" if "covers s (xs @ p # ys) lo hi" for lo hi
      proof -
        from that obtain f where f: "f \<in> set (xs @ p # ys)" "\<not> allocated s f" "f \<le> lo"
          "hi \<le> f + unat (hdr_size s f) + sizeof_header"
          by (auto simp: covers_def)
        have pc: "p \<le> lo \<Longrightarrow> hi \<le> p + unat (hdr_size s' p) + sizeof_header \<Longrightarrow> ?thesis"
          using fp by (auto simp: covers_def)
        from f(1) Cons consider "f = p" | "f = q" | "f \<in> set xs \<union> set zs" by auto
        then show ?thesis
        proof cases
          case 1
          with f w show ?thesis by (intro pc) (simp_all add: s'_def)
        next
          case 2
          with f w pq show ?thesis by (intro pc) (simp_all add: s'_def)
        next
          case 3
          with d have "f \<noteq> p" by auto
          with 3 f st show ?thesis
            by (auto simp: covers_def s'_def)
        qed
      qed
      have "\<forall>x. x \<noteq> p \<longrightarrow> hdr_next s' x = hdr_next s x \<and> hdr_size s' x = hdr_size s x"
        by (simp add: s'_def)
      moreover from Cons have "set zs \<subseteq> set ys" by auto
      ultimately show ?thesis using r inv' fr' fp lv cv by blast
    qed
  qed
qed


subsection \<open>Linking a block into the free list\<close>

lemma insert_free_space_front:
  assumes "b < list_head s" "b \<noteq> NULL"
  shows "insert_free_space b s
           = coalescing b (s\<lparr>hdr_next := (hdr_next s)(b := list_head s), list_head := b\<rparr>)"
  using assms by (simp add: insert_free_space_def Let_def set_next_def)

lemma insert_free_space_behind:
  assumes "\<not> b < list_head s" "insert_free_space_loop b (list_head s) s = Some t"
    "hdr_next s t \<noteq> NULL" "t \<noteq> b"
  shows "insert_free_space b s
           = coalescing b (s\<lparr>hdr_next := (hdr_next s)(b := hdr_next s t, t := b)\<rparr>)
               \<bind> coalescing t"
  using assms by (simp add: insert_free_space_def Let_def set_next_def)

lemma link_in:
  assumes inv: "heap_inv s (xs @ b # ys)" and al: "allocated s b"
  shows "\<exists>s2 ts. heap_inv s2 (xs @ b # ys) \<and> \<not> allocated s2 b
           \<and> hdr_size s2 = hdr_size s
           \<and> (\<forall>x. x \<noteq> b \<longrightarrow> allocated s2 x = allocated s x)
           \<and> frame s s2
           \<and> insert_free_space b s
               = (case ts of None \<Rightarrow> coalescing b s2
                  | Some t \<Rightarrow> coalescing b s2 \<bind> coalescing t)
           \<and> (\<forall>t. ts = Some t \<longrightarrow> t \<in> set xs \<and> \<not> allocated s t)"
proof -
  let ?F = "filter (\<lambda>b. \<not> allocated s b)"
  let ?bs = "xs @ b # ys"
  note t = heap_invD(1) [OF inv] and c = heap_invD(2) [OF inv] and l = heap_invD(4) [OF inv]
    and u = heap_invD(5) [OF inv] and e = heap_invD(6,7) [OF inv]
  have bn: "b \<noteq> NULL" "b < FAILED" using heap_inv_addr(1,2) [OF inv, of b] by simp_all
  from l al have yne: "ys \<noteq> []" and ly: "\<not> allocated s (last ys)"
    by (auto split: if_splits)
  then have "?F ys \<noteq> []" by (simp add: filter_nonempty_last)
  then obtain n R where fy: "?F ys = n # R" by (cases "?F ys") auto
  then have "n \<in> set (?F ys)" by simp
  then have ny: "n \<in> set ys" and nfr: "\<not> allocated s n" by simp_all
  from tiles_split [OF t] tiles_distinct [OF t]
  have o: "\<forall>x \<in> set xs. x < b" "\<forall>y \<in> set ys. b < y"
    and d: "b \<notin> set xs" "b \<notin> set ys" "set xs \<inter> set ys = {}"
    by (auto simp: c_defs)
  have nF: "n < FAILED" "n \<noteq> NULL" "b < n"
    using heap_inv_addr(1,2) [OF inv, of n] ny o by auto
  from c al fy have cF: "chain (hdr_next s) (list_head s) (?F xs @ n # R)" by simp
  from yne d have lb: "last ys \<noteq> b" using last_in_set [of ys] by auto
  have "b \<notin> set (?F ys)" using d by simp
  with fy d have bR: "b \<notin> set (n # R)" "b \<notin> set (?F xs)" by simp_all
  show ?thesis
  proof (cases "?F xs" rule: rev_cases)
    case Nil
    with cF have h: "list_head s = n" by simp
    define s2 where "s2 = s\<lparr>hdr_next := (hdr_next s)(b := list_head s), list_head := b\<rparr>"
    from h nF have r: "insert_free_space b s = coalescing b s2"
      unfolding s2_def by (intro insert_free_space_front bn) simp
    have st: "\<forall>x. x \<noteq> b \<longrightarrow> allocated s2 x = allocated s x"
      by (simp add: allocated_def s2_def)
    have fb: "\<not> allocated s2 b"
      using h nF u by (simp add: allocated_def s2_def)
    have fx: "filter (\<lambda>b. \<not> allocated s2 b) xs = ?F xs"
      "filter (\<lambda>b. \<not> allocated s2 b) ys = ?F ys"
      using st d by (auto intro!: filter_eqI)
    have c': "chain (hdr_next s2) (list_head s2) (filter (\<lambda>b. \<not> allocated s2 b) ?bs)"
      using cF Nil fb bR bn h by (simp add: fx fy) (simp add: s2_def)
    have l': "\<not> allocated s2 (last ?bs)"
      using ly st lb yne by simp
    have inv2: "heap_inv s2 ?bs"
      unfolding heap_inv_def using t c' l' u e by (simp add: s2_def heap_end_def)
    have "frame s s2" by (simp add: s2_def frame_def)
    moreover have "hdr_size s2 = hdr_size s" by (simp add: s2_def)
    ultimately show ?thesis using inv2 fb st r
      by (intro exI [of _ s2] exI [of _ None]) simp
  next
    case (snoc P t)
    with cF have cP: "chain (hdr_next s) (list_head s) (P @ t # n # R)" by simp
    from snoc have "set (P @ [t]) = set (?F xs)" by simp
    then have "set (P @ [t]) \<subseteq> {x \<in> set xs. \<not> allocated s x}" by simp
    then have tx: "t \<in> set xs" and tfr: "\<not> allocated s t" and Px: "set P \<subseteq> set xs"
      by auto
    from cP have "list_head s \<in> set (P @ [t])" by (cases P) auto
    with tx Px have "list_head s \<in> set xs" by auto
    with o have nh: "\<not> b < list_head s" by auto
    have lp: "insert_free_space_loop b (list_head s) s = Some t"
    proof (rule insert_free_space_loop_chain [OF cP])
      show "\<forall>x \<in> set (tl (P @ [t])). x < b"
        using o tx Px by (cases P) auto
      show "n # R = [] \<or> b \<le> hd (n # R)" using nF by simp
    qed
    from cP have pt: "path (hdr_next s) (list_head s) P t" and tn: "t \<noteq> NULL"
      and nt: "hdr_next s t = n" and cn: "chain (hdr_next s) n (n # R)"
      by (auto simp: chain_append)
    from tx d have tb: "t \<noteq> b" by auto
    define s2 where "s2 = s\<lparr>hdr_next := (hdr_next s)(b := hdr_next s t, t := b)\<rparr>"
    from nt nF have r: "insert_free_space b s = coalescing b s2 \<bind> coalescing t"
      unfolding s2_def by (intro insert_free_space_behind nh lp tb) simp
    have st: "\<forall>x. x \<noteq> b \<longrightarrow> allocated s2 x = allocated s x"
      using tfr bn u by (auto simp: allocated_def s2_def)
    have fb: "\<not> allocated s2 b"
      using nt nF u tb by (simp add: allocated_def s2_def)
    have fx: "filter (\<lambda>b. \<not> allocated s2 b) xs = ?F xs"
      "filter (\<lambda>b. \<not> allocated s2 b) ys = ?F ys"
      using st d by (auto intro!: filter_eqI)
    from chain_distinct [OF cP] have dP: "t \<notin> set P" "t \<notin> set (n # R)" by auto
    from bR snoc have bP: "b \<notin> set P" by auto
    have "chain (hdr_next s2) (list_head s2) (P @ t # b # n # R)"
      using pt tn nt cn dP bP bR tb bn by (simp add: chain_append s2_def)
    then have c': "chain (hdr_next s2) (list_head s2) (filter (\<lambda>b. \<not> allocated s2 b) ?bs)"
      using fb by (simp add: fx fy snoc)
    have l': "\<not> allocated s2 (last ?bs)"
      using ly st lb yne by simp
    have inv2: "heap_inv s2 ?bs"
      unfolding heap_inv_def using t c' l' u e by (simp add: s2_def heap_end_def)
    have "frame s s2" by (simp add: s2_def frame_def)
    moreover have "hdr_size s2 = hdr_size s" by (simp add: s2_def)
    ultimately show ?thesis using inv2 fb st r tx tfr
      by (intro exI [of _ s2] exI [of _ "Some t"]) simp
  qed
qed


lemma frame_refl [simp]: "frame s s"
  by (simp add: frame_def)

lemma frame_trans: "frame s s1 \<Longrightarrow> frame s1 s2 \<Longrightarrow> frame s s2"
  by (simp add: frame_def)

lemma insert_free_space_heap_inv:
  assumes inv: "heap_inv s (xs @ b # ys)" and al: "allocated s b"
  shows "\<exists>s' bs'. insert_free_space b s = Some s' \<and> heap_inv s' bs'
          \<and> live s' bs' = live s (xs @ b # ys) - {b + sizeof_header}
          \<and> covers s' bs' b (b + unat (hdr_size s b) + sizeof_header)
          \<and> frame s s' \<and> set bs' \<subseteq> set (xs @ b # ys)"
proof -
  let ?bs = "xs @ b # ys"
  from link_in [OF inv al]
  obtain s2 ts where inv2: "heap_inv s2 ?bs" and fb: "\<not> allocated s2 b"
    and sz: "hdr_size s2 = hdr_size s"
    and st: "\<forall>x. x \<noteq> b \<longrightarrow> allocated s2 x = allocated s x"
    and f2: "frame s s2"
    and r: "insert_free_space b s
               = (case ts of None \<Rightarrow> coalescing b s2
                  | Some t \<Rightarrow> coalescing b s2 \<bind> coalescing t)"
    and ts: "\<forall>t. ts = Some t \<longrightarrow> t \<in> set xs \<and> \<not> allocated s t"
    by blast
  have lv2: "live s2 ?bs = live s ?bs - {b + sizeof_header}"
    using st fb al by (auto simp: live_def)
  have cv2: "covers s2 ?bs b (b + unat (hdr_size s b) + sizeof_header)"
    using fb sz by (auto simp: covers_def)
  from coalescing_heap_inv [OF inv2 fb]
  obtain s3 ys' where r3: "coalescing b s2 = Some s3" and inv3: "heap_inv s3 (xs @ b # ys')"
    and f3: "frame s2 s3"
    and o3: "\<forall>x. x \<noteq> b \<longrightarrow> hdr_next s3 x = hdr_next s2 x \<and> hdr_size s3 x = hdr_size s2 x"
    and lv3: "live s3 (xs @ b # ys') = live s2 ?bs"
    and cv3: "\<forall>lo hi. covers s2 ?bs lo hi \<longrightarrow> covers s3 (xs @ b # ys') lo hi"
    and sb3: "set ys' \<subseteq> set ys"
    by blast
  show ?thesis
  proof (cases ts)
    case None
    with r r3 have "insert_free_space b s = Some s3" by simp
    moreover from f2 f3 have "frame s s3" by (rule frame_trans)
    moreover from sb3 have "set (xs @ b # ys') \<subseteq> set ?bs" by auto
    moreover from lv3 lv2
    have "live s3 (xs @ b # ys') = live s ?bs - {b + sizeof_header}" by simp
    moreover from cv3 cv2
    have "covers s3 (xs @ b # ys') b (b + unat (hdr_size s b) + sizeof_header)" by simp
    ultimately show ?thesis using inv3 by blast
  next
    case (Some t)
    with ts have tx: "t \<in> set xs" and tf: "\<not> allocated s t" by simp_all
    from tiles_distinct [OF heap_invD(1) [OF inv]] tx have tb: "t \<noteq> b" by auto
    from f3 have "used_head s3 = used_head s2" by (simp add: frame_def)
    with tb tf st o3 have tf3: "\<not> allocated s3 t" by (simp add: allocated_def)
    from tx obtain xs1 xs2 where xs: "xs = xs1 @ t # xs2"
      by (auto simp: in_set_conv_decomp)
    with inv3 have inv3': "heap_inv s3 (xs1 @ t # (xs2 @ b # ys'))" by simp
    from coalescing_heap_inv [OF inv3' tf3]
    obtain s4 zs' where r4: "coalescing t s3 = Some s4" and inv4: "heap_inv s4 (xs1 @ t # zs')"
      and f4: "frame s3 s4"
      and lv4: "live s4 (xs1 @ t # zs') = live s3 (xs1 @ t # (xs2 @ b # ys'))"
      and cv4: "\<forall>lo hi. covers s3 (xs1 @ t # (xs2 @ b # ys')) lo hi
                  \<longrightarrow> covers s4 (xs1 @ t # zs') lo hi"
      and sb4: "set zs' \<subseteq> set (xs2 @ b # ys')"
      by blast
    from Some r r3 r4 have "insert_free_space b s = Some s4" by simp
    moreover from f2 f3 f4 have "frame s s4" by (blast intro: frame_trans)
    moreover from lv4 lv3 lv2 xs
    have "live s4 (xs1 @ t # zs') = live s ?bs - {b + sizeof_header}" by simp
    moreover from cv4 cv3 cv2 xs
    have "covers s4 (xs1 @ t # zs') b (b + unat (hdr_size s b) + sizeof_header)" by simp
    moreover from sb3 sb4 xs have "set (xs1 @ t # zs') \<subseteq> set ?bs" by auto
    ultimately show ?thesis using inv4 by blast
  qed
qed

subsection \<open>What no call changes\<close>

lemma frame_grown: "frame s s' \<Longrightarrow> grown s s'"
  by (simp add: frame_def grown_def)

lemma grown_refl [simp]: "grown s s"
  by (simp add: grown_def)

lemma grown_trans: "grown s s1 \<Longrightarrow> grown s1 s2 \<Longrightarrow> grown s s2"
  by (auto simp: grown_def)

lemma coalescing_frame:
  "coalescing p s = Some s' \<Longrightarrow> frame s s' \<and> list_head s' = list_head s"
  by (auto simp: coalescing_def Let_def frame_def split: if_splits)

lemma insert_free_space_frame:
  assumes "insert_free_space b s = Some s'"
  shows "frame s s'" and "list_head s \<noteq> NULL \<Longrightarrow> list_head s' \<noteq> NULL"
proof -
  show "frame s s'"
    using assms
    by (auto simp: insert_free_space_def Let_def frame_def split: if_splits bind_splits
        dest!: coalescing_frame)
  show "list_head s' \<noteq> NULL" if "list_head s \<noteq> NULL"
    using assms that
    by (auto simp: insert_free_space_def Let_def split: if_splits bind_splits
        dest!: coalescing_frame)
qed

lemma shrink_free_loop_nonnull: "shrink_free_loop f p s = Some t \<Longrightarrow> p \<noteq> NULL"
  by (subst (asm) shrink_free_loop.simps) (auto split: if_splits)

lemma shrink_free_frame:
  assumes "shrink_free f sz s = Some (nb, s')"
  shows "frame s s'" and "list_head s' \<noteq> NULL"
  using assms
  by (auto simp: shrink_free_def Let_def frame_def c_defs split: if_splits bind_splits
      dest: shrink_free_loop_nonnull)

lemma expand_heap_grown:
  assumes "expand_heap s = Some (r, s')"
  shows "grown s s'" and "list_head s' = list_head s" and "hdr_next s' = hdr_next s"
    and "lock_trace s' = lock_trace s"
    and "sbrk_calls s' = Suc (sbrk_calls s)"
  using assms
  by (auto simp: expand_heap_def sbrk_def Let_def grown_def split: if_splits bind_splits)

lemma unlock_grown [simp]: "grown s (pthread_mutex_unlock s)" "grown s (pthread_mutex_lock s)"
  "grown s (log_event e s)"
  by (simp_all add: grown_def)

text \<open>The search reads the sizes and the links only.\<close>

lemma find_free_space_loop_reads:
  assumes a: "find_free_space_loop sz t s' = Some y"
    and e: "hdr_size s' = hdr_size s" "hdr_next s' = hdr_next s"
  shows "find_free_space_loop sz t s = Some y"
proof -
  have "hdr_size s' = hdr_size s \<longrightarrow> hdr_next s' = hdr_next s \<longrightarrow>
        find_free_space_loop sz t s = Some y"
  proof (rule find_free_space_loop.raw_induct [where P = "\<lambda>sz t s' y.
          hdr_size s' = hdr_size s \<longrightarrow> hdr_next s' = hdr_next s \<longrightarrow>
          find_free_space_loop sz t s = Some y", OF _ a], goal_cases)
    case prems: (1 loop sz t s' y)
    show ?case
    proof (intro impI)
      assume e: "hdr_size s' = hdr_size s" "hdr_next s' = hdr_next s"
      show "find_free_space_loop sz t s = Some y"
      proof (cases "t = NULL \<or> unat sz + sizeof_header \<le> unat (hdr_size s t)")
        case True
        with prems(2) e show ?thesis
          by (subst find_free_space_loop.simps) (auto split: if_splits)
      next
        case False
        with prems(2) e have "loop sz (hdr_next s t) s' = Some y" by simp
        from prems(1) [OF this] e False show ?thesis
          by (subst find_free_space_loop.simps) simp
      qed
    qed
  qed
  with e show ?thesis by simp
qed

lemma find_free_space_log [simp]:
  "find_free_space sz (log_event e s) = find_free_space sz s"
proof (cases "find_free_space sz s")
  case (Some y)
  then have "find_free_space_loop sz (list_head s) s = Some y"
    by (simp add: find_free_space_def)
  then have "find_free_space_loop sz (list_head s) (log_event e s) = Some y"
    by (rule find_free_space_loop_reads) simp_all
  with Some show ?thesis by (simp add: find_free_space_def)
next
  case None
  show ?thesis
  proof (cases "find_free_space sz (log_event e s)")
    case (Some y)
    then have "find_free_space_loop sz (list_head s) (log_event e s) = Some y"
      by (simp add: find_free_space_def)
    then have "find_free_space_loop sz (list_head s) s = Some y"
      by (rule find_free_space_loop_reads) simp_all
    with None show ?thesis by (simp add: find_free_space_def)
  next
    case n: None
    with None show ?thesis by simp
  qed
qed

lemma mymalloc_loop_grown:
  assumes a: "mymalloc_loop sz s = Some y"
  shows "grown s (snd y)
         \<and> lock_trace (snd y)
             = lock_trace s
               @ concat (replicate (sbrk_calls (snd y) - sbrk_calls s) [Search, Expand])
               @ (if fst y = NULL then [] else [Search, Split]) @ [Release]
         \<and> (list_head s \<noteq> NULL \<longrightarrow> list_head (snd y) \<noteq> NULL)"
proof (rule mymalloc_loop.raw_induct [where P = "\<lambda>sz s y. grown s (snd y)
         \<and> lock_trace (snd y)
             = lock_trace s
               @ concat (replicate (sbrk_calls (snd y) - sbrk_calls s) [Search, Expand])
               @ (if fst y = NULL then [] else [Search, Split]) @ [Release]
         \<and> (list_head s \<noteq> NULL \<longrightarrow> list_head (snd y) \<noteq> NULL)", OF _ a], goal_cases)
  case prems: (1 loop sz s y)
  note IH = prems(1) and body = prems(2)
  from body obtain fb where fb: "find_free_space sz s = Some fb"
    by (auto split: bind_splits)
  show ?case
  proof (cases "fb = NULL")
    case False
    with body fb obtain nb s1
      where sh: "shrink_free fb sz (log_event Split (log_event Search s)) = Some (nb, s1)"
      and y: "y = (nb + sizeof_header, pthread_mutex_unlock s1)"
      by (auto split: bind_splits)
    from shrink_free_frame [OF sh] y show ?thesis
      by (auto simp: frame_def grown_def c_defs)
  next
    case True
    with body fb obtain r s1
      where ex: "expand_heap (log_event Expand (log_event Search s)) = Some (r, s1)"
      and rest: "(if r = 0 then Some (NULL, pthread_mutex_unlock s1) else loop sz s1) = Some y"
      by (auto split: bind_splits)
    note g = expand_heap_grown [OF ex]
    from g(1) have g0: "grown s s1" by (simp add: grown_def)
    from g(4) have tr: "lock_trace s1 = lock_trace s @ [Search, Expand]" by simp
    from g(5) have sc: "sbrk_calls s1 = Suc (sbrk_calls s)" by simp
    show ?thesis
    proof (cases "r = 0")
      case True
      with rest have "y = (NULL, pthread_mutex_unlock s1)" by simp
      with g0 g(2) tr sc show ?thesis by (simp add: grown_def)
    next
      case False
      with rest have "loop sz s1 = Some y" by simp
      from IH [OF this] have g1: "grown s1 (snd y)"
        and tr1: "lock_trace (snd y)
             = lock_trace s1
               @ concat (replicate (sbrk_calls (snd y) - sbrk_calls s1) [Search, Expand])
               @ (if fst y = NULL then [] else [Search, Split]) @ [Release]"
        and lh: "list_head s1 \<noteq> NULL \<longrightarrow> list_head (snd y) \<noteq> NULL"
        by blast+
      from g1 have "sbrk_calls s1 \<le> sbrk_calls (snd y)" by (simp add: grown_def)
      with sc have "sbrk_calls (snd y) - sbrk_calls s = Suc (sbrk_calls (snd y) - sbrk_calls s1)"
        by simp
      with tr tr1 have "lock_trace (snd y)
             = lock_trace s
               @ concat (replicate (sbrk_calls (snd y) - sbrk_calls s) [Search, Expand])
               @ (if fst y = NULL then [] else [Search, Split]) @ [Release]"
        by simp
      moreover from g0 g1 have "grown s (snd y)" by (rule grown_trans)
      moreover from lh g(2) have "list_head s \<noteq> NULL \<longrightarrow> list_head (snd y) \<noteq> NULL"
        by simp
      ultimately show ?thesis by blast
    qed
  qed
qed

lemma mymalloc_grown:
  assumes "mymalloc n s = Some (p, s')"
  shows "grown s s'" and "list_head s \<noteq> NULL \<Longrightarrow> list_head s' \<noteq> NULL"
proof -
  show "grown s s'"
  proof (cases "n = 0")
    case True
    with assms show ?thesis by (simp add: mymalloc_def)
  next
    case False
    with assms have "mymalloc_loop (round_request n) (pthread_mutex_lock s) = Some (p, s')"
      by (simp add: mymalloc_def)
    from mymalloc_loop_grown [OF this] show ?thesis
      by (auto simp: grown_def)
  qed
  show "list_head s' \<noteq> NULL" if "list_head s \<noteq> NULL"
  proof (cases "n = 0")
    case True
    with assms that show ?thesis by (simp add: mymalloc_def)
  next
    case False
    with assms have "mymalloc_loop (round_request n) (pthread_mutex_lock s) = Some (p, s')"
      by (simp add: mymalloc_def)
    from mymalloc_loop_grown [OF this] that show ?thesis by simp
  qed
qed

lemma myfree_cases:
  assumes "myfree p s = Some (r, s')"
  obtains (range) "p < heap_head s \<or> heap_head s + unat (heap_size s) - 8 < p"
      "r = 1" "s' = log_event Range_test s"
  | (marker) "\<not> (p < heap_head s \<or> heap_head s + unat (heap_size s) - 8 < p)"
      "heap_head s + 8 \<le> p" "hdr_next s (p - sizeof_header) \<noteq> used_head s"
      "r = 1" "s' = log_event Marker_test (log_event Range_test s)"
  | (freed) s2 where "\<not> (p < heap_head s \<or> heap_head s + unat (heap_size s) - 8 < p)"
      "heap_head s + 8 \<le> p" "hdr_next s (p - sizeof_header) = used_head s"
      "insert_free_space (p - sizeof_header)
         (log_event Insert (pthread_mutex_lock (log_event Marker_test (log_event Range_test s))))
       = Some s2"
      "r = 0" "s' = pthread_mutex_unlock s2"
  using assms
  by (auto simp: myfree_def Let_def split: if_splits bind_splits)

lemma myfree_grown:
  assumes "myfree p s = Some (r, s')"
  shows "grown s s'" and "list_head s \<noteq> NULL \<Longrightarrow> list_head s' \<noteq> NULL"
proof -
  from assms have "grown s s' \<and> (list_head s \<noteq> NULL \<longrightarrow> list_head s' \<noteq> NULL)"
  proof (cases rule: myfree_cases)
    case range
    then show ?thesis by simp
  next
    case marker
    then show ?thesis by (simp add: grown_def)
  next
    case (freed s2)
    from insert_free_space_frame [OF freed(4)] freed(6) show ?thesis
      by (auto simp: frame_def grown_def)
  qed
  then show "grown s s'" and "list_head s \<noteq> NULL \<Longrightarrow> list_head s' \<noteq> NULL" by simp_all
qed

lemma step_grown:
  assumes "step c c'"
  shows "grown (fst c) (fst c')"
    and "list_head (fst c) \<noteq> NULL \<Longrightarrow> list_head (fst c') \<noteq> NULL"
  using assms
  by (induction rule: step.induct)
    (auto dest: mymalloc_grown myfree_grown expand_heap_grown)

lemma grown_bounded: "grown s s' \<Longrightarrow> bounded s' \<Longrightarrow> bounded s"
  by (simp add: grown_def bounded_def)


subsection \<open>myfree and mymalloc keep the shape of the heap\<close>

lemma live_cong:
  "hdr_next s' = hdr_next s \<Longrightarrow> used_head s' = used_head s \<Longrightarrow> live s' bs = live s bs"
  by (simp add: live_def allocated_def)

lemma covers_cong:
  "hdr_next s' = hdr_next s \<Longrightarrow> used_head s' = used_head s \<Longrightarrow> hdr_size s' = hdr_size s \<Longrightarrow>
   covers s' bs lo hi = covers s bs lo hi"
  by (simp add: covers_def allocated_def)

lemma heap_inv_lock [simp]:
  "heap_inv (pthread_mutex_lock s) bs = heap_inv s bs"
  "heap_inv (pthread_mutex_unlock s) bs = heap_inv s bs"
  "heap_inv (log_event e s) bs = heap_inv s bs"
  by (rule heap_inv_cong; simp)+

lemma live_lock [simp]:
  "live (pthread_mutex_lock s) bs = live s bs"
  "live (pthread_mutex_unlock s) bs = live s bs"
  "live (log_event e s) bs = live s bs"
  by (rule live_cong; simp)+

lemma covers_lock [simp]:
  "covers (pthread_mutex_lock s) bs lo hi = covers s bs lo hi"
  "covers (pthread_mutex_unlock s) bs lo hi = covers s bs lo hi"
  "covers (log_event e s) bs lo hi = covers s bs lo hi"
  by (rule covers_cong; simp)+

lemma allocated_lock [simp]:
  "allocated (pthread_mutex_lock s) b = allocated s b"
  "allocated (pthread_mutex_unlock s) b = allocated s b"
  "allocated (log_event e s) b = allocated s b"
  by (simp_all add: allocated_def)

lemma fits_lock [simp]:
  "fits sz (pthread_mutex_lock s) b = fits sz s b"
  "fits sz (log_event e s) b = fits sz s b"
  by (simp_all add: fits_def)

lemma bounded_lock [simp]:
  "bounded (pthread_mutex_lock s) = bounded s"
  "bounded (pthread_mutex_unlock s) = bounded s"
  "bounded (log_event e s) = bounded s"
  by (simp_all add: bounded_def)

lemma live_block:
  assumes "p \<in> live s bs"
  obtains b where "p = b + sizeof_header" "b \<in> set bs" "allocated s b"
  using assms by (auto simp: live_def)

lemma myfree_heap_inv:
  assumes inv: "heap_inv s bs" and p: "p \<in> live s bs"
  shows "\<exists>s' bs'. myfree p s = Some (0, s') \<and> heap_inv s' bs'
           \<and> live s' bs' = live s bs - {p}
           \<and> covers s' bs' (p - sizeof_header) (p + unat (hdr_size s (p - sizeof_header)))
           \<and> lock_trace s' = lock_trace s @ [Range_test, Marker_test, Acquire, Insert, Release]
           \<and> set bs' \<subseteq> set bs"
proof -
  from p obtain b where pb: "p = b + sizeof_header" and b: "b \<in> set bs" "allocated s b"
    by (rule live_block)
  from b(1) obtain xs ys where bs: "bs = xs @ b # ys"
    by (auto simp: in_set_conv_decomp)
  note t = heap_invD(1) [OF inv] and l = heap_invD(4) [OF inv]
  from l b(2) bs have yne: "ys \<noteq> []" by (auto split: if_splits)
  then obtain y where y: "y \<in> set ys" by (cases ys) auto
  from tiles_split [OF t [unfolded bs]] y
  have "b + unat (hdr_size s b) + sizeof_header \<le> y" "y + unat (hdr_size s y) + sizeof_header \<le> heap_end s"
    "heap_head s + sizeof_free_list \<le> b"
    by auto
  then have rng: "\<not> (p < heap_head s \<or> heap_head s + unat (heap_size s) - 8 < p)"
    and old: "p - sizeof_header = b" "b \<noteq> NULL" and low: "\<not> p < heap_head s + 8"
    by (auto simp: pb heap_end_def c_defs)
  define t where
    "t = log_event Insert (pthread_mutex_lock (log_event Marker_test (log_event Range_test s)))"
  have inv': "heap_inv t (xs @ b # ys)"
    using inv bs by (simp add: t_def)
  have al': "allocated t b"
    using b(2) by (simp add: t_def)
  from insert_free_space_heap_inv [OF inv' al']
  obtain s1 bs' where i: "insert_free_space b t = Some s1"
    and inv1: "heap_inv s1 bs'"
    and lv: "live s1 bs' = live t (xs @ b # ys) - {b + sizeof_header}"
    and cv: "covers s1 bs' b (b + unat (hdr_size t b) + sizeof_header)"
    and fr: "frame t s1"
    and sb: "set bs' \<subseteq> set (xs @ b # ys)"
    by blast
  from rng low old b(2) i have r: "myfree p s = Some (0, pthread_mutex_unlock s1)"
    by (simp add: myfree_def Let_def allocated_def t_def)
  moreover from inv1 have "heap_inv (pthread_mutex_unlock s1) bs'" by simp
  moreover from lv have "live (pthread_mutex_unlock s1) bs' = live s bs - {p}"
    by (simp add: bs pb t_def)
  moreover from cv
  have "covers (pthread_mutex_unlock s1) bs' (p - sizeof_header)
          (p + unat (hdr_size s (p - sizeof_header)))"
    by (simp add: old t_def) (simp add: pb ac_simps)
  moreover from fr
  have "lock_trace (pthread_mutex_unlock s1)
          = lock_trace s @ [Range_test, Marker_test, Acquire, Insert, Release]"
    by (simp add: frame_def t_def)
  moreover from sb bs have "set bs' \<subseteq> set bs" by simp
  ultimately show ?thesis by blast
qed

lemma find_Some_in: "List.find P xs = Some a \<Longrightarrow> a \<in> set xs \<and> P a"
  by (induction xs) (auto split: if_splits)

lemma find_free_space_found:
  assumes inv: "heap_inv s bs" and f: "find_free_space sz s = Some fb" "fb \<noteq> NULL"
  shows "fb \<in> set bs" "\<not> allocated s fb" "fits sz s fb"
proof -
  let ?fl = "filter (\<lambda>b. \<not> allocated s b) bs"
  from find_free_space_loop_chain [OF heap_invD(2) [OF inv], of sz] f
  have "List.find (fits sz s) ?fl = Some fb"
    by (auto simp: find_free_space_def split: option.splits)
  from find_Some_in [OF this]
  show "fb \<in> set bs" "\<not> allocated s fb" "fits sz s fb" by simp_all
qed

lemma mymalloc_loop_heap_inv:
  assumes a: "mymalloc_loop sz s = Some y"
  shows "grown s (snd y)
         \<and> (\<forall>bs. heap_inv s bs \<longrightarrow> bounded (snd y) \<longrightarrow>
              (\<exists>bs'. heap_inv (snd y) bs'
                 \<and> (if fst y = NULL then live (snd y) bs' = live s bs \<and> set bs' \<subseteq> set bs
                    else fst y \<notin> live s bs \<and> live (snd y) bs' = insert (fst y) (live s bs)
                      \<and> fst y - sizeof_header \<in> set bs'
                      \<and> hdr_size (snd y) (fst y - sizeof_header) = sz
                      \<and> set bs' \<subseteq> insert (fst y + unat sz) (set bs))))"
proof (rule mymalloc_loop.raw_induct [where P = "\<lambda>sz s y. grown s (snd y)
         \<and> (\<forall>bs. heap_inv s bs \<longrightarrow> bounded (snd y) \<longrightarrow>
              (\<exists>bs'. heap_inv (snd y) bs'
                 \<and> (if fst y = NULL then live (snd y) bs' = live s bs \<and> set bs' \<subseteq> set bs
                    else fst y \<notin> live s bs \<and> live (snd y) bs' = insert (fst y) (live s bs)
                      \<and> fst y - sizeof_header \<in> set bs'
                      \<and> hdr_size (snd y) (fst y - sizeof_header) = sz
                      \<and> set bs' \<subseteq> insert (fst y + unat sz) (set bs))))", OF _ a], goal_cases)
  case prems: (1 loop sz s y)
  note IH = prems(1) and body = prems(2)
  from body obtain fb where fb: "find_free_space sz s = Some fb"
    by (auto split: bind_splits)
  show ?case
  proof (cases "fb = NULL")
    case False
    define t where "t = log_event Split (log_event Search s)"
    from False body fb obtain nb s1 where sh: "shrink_free fb sz t = Some (nb, s1)"
      and y: "y = (nb + sizeof_header, pthread_mutex_unlock s1)"
      by (auto simp: t_def split: bind_splits)
    from shrink_free_frame [OF sh] y have g: "grown s (snd y)"
      by (auto simp: frame_def grown_def t_def)
    have "\<exists>bs'. heap_inv (snd y) bs'
                 \<and> (if fst y = NULL then live (snd y) bs' = live s bs \<and> set bs' \<subseteq> set bs
                    else fst y \<notin> live s bs \<and> live (snd y) bs' = insert (fst y) (live s bs)
                      \<and> fst y - sizeof_header \<in> set bs'
                      \<and> hdr_size (snd y) (fst y - sizeof_header) = sz
                      \<and> set bs' \<subseteq> insert (fst y + unat sz) (set bs))"
      if inv: "heap_inv s bs" for bs
    proof -
      note ff = find_free_space_found [OF inv fb False]
      from ff(1) obtain xs ys where bs: "bs = xs @ fb # ys"
        by (auto simp: in_set_conv_decomp)
      from inv bs have invt: "heap_inv t (xs @ fb # ys)" by (simp add: t_def)
      from ff(2,3) have fft: "\<not> allocated t fb" "fits sz t fb" by (simp_all add: t_def)
      from shrink_free_heap_inv [OF invt fft refl] sh
      have nb: "nb = fb" and inv1: "heap_inv s1 (xs @ fb # (fb + unat sz + sizeof_header) # ys)"
        and al: "allocated s1 fb" "\<not> allocated s1 (fb + unat sz + sizeof_header)"
        and sz1: "hdr_size s1 fb = sz"
        and st: "\<forall>b \<in> set (xs @ ys). allocated s1 b = allocated s b"
        by (auto simp: t_def)
      from tiles_distinct [OF heap_invD(1) [OF inv]] bs
      have d: "fb \<notin> set xs" "fb \<notin> set ys" by auto
      have "live s1 (xs @ fb # (fb + unat sz + sizeof_header) # ys)
              = insert (fb + sizeof_header) (live s bs)"
        using st al ff(2) unfolding bs live_def by auto
      moreover have "fb + sizeof_header \<notin> live s bs"
        using ff(2) by (auto simp: live_def)
      moreover have "fb + sizeof_header \<noteq> NULL" by (simp add: c_defs)
      moreover have "set (xs @ fb # (fb + unat sz + sizeof_header) # ys)
                       \<subseteq> insert (fb + sizeof_header + unat sz) (set bs)"
        unfolding bs by (auto simp: ac_simps)
      ultimately show ?thesis using inv1 sz1
        by (intro exI [of _ "xs @ fb # (fb + unat sz + sizeof_header) # ys"]) (simp add: y nb)
    qed
    with g show ?thesis by blast
  next
    case True
    define t where "t = log_event Expand (log_event Search s)"
    from True body fb obtain r s1 where ex: "expand_heap t = Some (r, s1)"
      and rest: "(if r = 0 then Some (NULL, pthread_mutex_unlock s1) else loop sz s1) = Some y"
      by (auto simp: t_def split: bind_splits)
    note gt = expand_heap_grown [OF ex]
    from gt(1) have g: "grown s s1" by (simp add: grown_def t_def)
    have invt: "heap_inv t bs = heap_inv s bs" for bs by (simp add: t_def)
    have inv1: "heap_inv s1 bs" if "heap_inv s bs" "bounded s1" for bs
      using expand_heap_heap_inv [of t bs] that ex invt by auto
    have lv1: "live s1 bs = live s bs" for bs
      using g by (intro live_cong) (simp_all add: grown_def gt(3) t_def)
    show ?thesis
    proof (cases "r = 0")
      case True
      with rest have y: "y = (NULL, pthread_mutex_unlock s1)" by simp
      with g inv1 lv1 show ?thesis
        by (auto simp: grown_def bounded_def)
    next
      case False
      with rest have "loop sz s1 = Some y" by simp
      from IH [OF this] have g1: "grown s1 (snd y)"
        and P1: "\<And>bs. heap_inv s1 bs \<Longrightarrow> bounded (snd y) \<Longrightarrow>
              (\<exists>bs'. heap_inv (snd y) bs'
                 \<and> (if fst y = NULL then live (snd y) bs' = live s1 bs \<and> set bs' \<subseteq> set bs
                    else fst y \<notin> live s1 bs \<and> live (snd y) bs' = insert (fst y) (live s1 bs)
                      \<and> fst y - sizeof_header \<in> set bs'
                      \<and> hdr_size (snd y) (fst y - sizeof_header) = sz
                      \<and> set bs' \<subseteq> insert (fst y + unat sz) (set bs)))"
        by blast+
      have "\<exists>bs'. heap_inv (snd y) bs'
                 \<and> (if fst y = NULL then live (snd y) bs' = live s bs \<and> set bs' \<subseteq> set bs
                    else fst y \<notin> live s bs \<and> live (snd y) bs' = insert (fst y) (live s bs)
                      \<and> fst y - sizeof_header \<in> set bs'
                      \<and> hdr_size (snd y) (fst y - sizeof_header) = sz
                      \<and> set bs' \<subseteq> insert (fst y + unat sz) (set bs))"
        if inv: "heap_inv s bs" and bd: "bounded (snd y)" for bs
      proof -
        from grown_bounded [OF g1 bd] have "bounded s1" .
        from P1 [OF inv1 [OF inv this] bd] show ?thesis
          unfolding lv1 .
      qed
      with g g1 show ?thesis by (blast intro: grown_trans)
    qed
  qed
qed

subsection \<open>Every configuration the allocator reaches\<close>

lemma mymalloc_init_state:
  assumes "mymalloc_init (fresh b g sz nx) = (0, s)"
  shows "expansion_counter s = 1" "sbrk_calls s = 1" "list_head s \<noteq> NULL"
    "heap_head s = b" "heap_size s = 4096" "brk s = b + 4096" "os_grants s = g"
    "lock_trace s = []" "used_head s = FAILED" "list_head s = b + sizeof_free_list"
    "hdr_size s (b + sizeof_free_list) = 4032" "hdr_next s (b + sizeof_free_list) = NULL"
proof -
  have g: "\<not> refused PAGE_SIZE (fresh b g sz nx)"
    using assms mymalloc_init_refused [of "fresh b g sz nx"] by auto
  from mymalloc_init_granted [OF g] assms
  show "expansion_counter s = 1" "sbrk_calls s = 1" "list_head s \<noteq> NULL"
    "heap_head s = b" "heap_size s = 4096" "brk s = b + 4096" "os_grants s = g"
    "lock_trace s = []" "used_head s = FAILED" "list_head s = b + sizeof_free_list"
    "hdr_size s (b + sizeof_free_list) = 4032" "hdr_next s (b + sizeof_free_list) = NULL"
    by (auto simp: fresh_def c_defs)
qed

lemma reach_counter:
  assumes "reach c"
  shows "expansion_counter (fst c) = of_nat (sbrk_calls (fst c))"
    and "list_head (fst c) \<noteq> NULL"
    and "0 < sbrk_calls (fst c)"
  using assms
proof (induction rule: reach.induct)
  case (init b g sz nx s)
  {
    case 1
    from mymalloc_init_state [OF init] show ?case by simp
  next
    case 2
    from mymalloc_init_state [OF init] show ?case by simp
  next
    case 3
    from mymalloc_init_state [OF init] show ?case by simp
  }
next
  case (step c c')
  note g = step_grown [OF step.hyps(2)]
  {
    case 1
    from g(1) step.IH(1) step.IH(3) show ?case
      by (simp add: grown_def)
  next
    case 2
    from g(2) step.IH(2) show ?case by simp
  next
    case 3
    from g(1) step.IH(3) show ?case by (simp add: grown_def)
  }
qed

lemma good_init:
  assumes "mymalloc_init (fresh b g sz nx) = (0, s)"
  shows "good (s, {})"
proof -
  note i = mymalloc_init_heap_inv [OF assms]
  from heap_inv_blocks [OF i(1)] i show ?thesis
    by (simp add: good_def live_def)
qed

lemma good_step:
  assumes g: "good c" and st: "step c c'" and bd: "bounded (fst c')"
  shows "good c'"
  using st g bd
proof (induction rule: step.induct)
  case (malloc n s p s' L)
  from malloc.prems have inv: "heap_inv s (heap_blocks s)" and L: "L = live s (heap_blocks s)"
    by (simp_all add: good_def)
  show ?case
  proof (cases "n = 0")
    case True
    with malloc.hyps malloc.prems show ?thesis by (simp add: mymalloc_def)
  next
    case False
    with malloc.hyps
    have m: "mymalloc_loop (round_request n) (pthread_mutex_lock s) = Some (p, s')"
      by (simp add: mymalloc_def)
    from inv have "heap_inv (pthread_mutex_lock s) (heap_blocks s)" by simp
    with mymalloc_loop_heap_inv [OF m] malloc.prems(2)
    obtain bs' where inv': "heap_inv s' bs'"
      and lv: "if p = NULL then live s' bs' = live s (heap_blocks s)
               else live s' bs' = insert p (live s (heap_blocks s))"
      by (fastforce split: if_splits)
    from heap_inv_blocks [OF inv'] inv' lv L show ?thesis
      by (auto simp: good_def split: if_splits)
  qed
next
  case (free p L s r s')
  from free.prems have inv: "heap_inv s (heap_blocks s)" and L: "L = live s (heap_blocks s)"
    by (simp_all add: good_def)
  from free.hyps(1) L have "p \<in> live s (heap_blocks s)" by simp
  from myfree_heap_inv [OF inv this] free.hyps(2)
  obtain bs' where inv': "heap_inv s' bs'" and lv: "live s' bs' = live s (heap_blocks s) - {p}"
    by auto
  from heap_inv_blocks [OF inv'] inv' lv L show ?case
    by (simp add: good_def)
next
  case (reject p s r s' L)
  from reject.prems have inv: "heap_inv s (heap_blocks s)" and L: "L = live s (heap_blocks s)"
    by (simp_all add: good_def)
  from reject.hyps(2) reject.hyps(1)
  have "heap_inv s' (heap_blocks s) \<and> live s' (heap_blocks s) = live s (heap_blocks s)"
    using inv by (cases rule: myfree_cases) (simp_all add: rejected_def)
  with heap_inv_blocks [of s' "heap_blocks s"] L show ?case
    by (simp add: good_def)
next
  case (expand s r s' L)
  from expand.prems have inv: "heap_inv s (heap_blocks s)" and L: "L = live s (heap_blocks s)"
    by (simp_all add: good_def)
  from expand_heap_heap_inv [OF inv] expand.hyps expand.prems(2)
  have inv': "heap_inv s' (heap_blocks s)" by auto
  note g = expand_heap_grown [OF expand.hyps]
  have "live s' (heap_blocks s) = live s (heap_blocks s)"
    using g by (intro live_cong) (simp_all add: grown_def)
  with heap_inv_blocks [OF inv'] inv' L show ?case
    by (simp add: good_def)
qed

lemma reach_good:
  assumes "reach c" "bounded (fst c)"
  shows "good c"
  using assms
proof (induction rule: reach.induct)
  case (init b g sz nx s)
  then show ?case by (auto intro: good_init)
next
  case (step c c')
  from step_grown(1) [OF step.hyps(2)] step.prems have "bounded (fst c)"
    by (rule grown_bounded)
  with step.IH have "good c" .
  from this step.hyps(2) step.prems show ?case by (rule good_step)
qed

subsection \<open>Conservation\<close>

lemma free_block_eq: "(\<lambda>b. \<not> allocated s b) = free_block s"
  by (simp add: free_block_def fun_eq_iff)

lemma payload_split:
  "payload s (filter P bs) + payload s (filter (\<lambda>b. \<not> P b) bs) = payload s bs"
  unfolding payload_def by (induction bs) auto

lemma tiles_payload:
  "tiles (hdr_size s) a bs e \<Longrightarrow> e = a + payload s bs + length bs * sizeof_header"
  unfolding payload_def
proof (induction bs arbitrary: a)
  case Nil
  then show ?case by simp
next
  case (Cons b bs)
  from Cons.prems have t: "tiles (hdr_size s) (b + unat (hdr_size s b) + sizeof_header) bs e"
    and ab: "a = b" by simp_all
  from Cons.IH [OF t] ab show ?case by simp
qed

lemma heap_inv_conservation:
  assumes "heap_inv s bs"
  shows "payload s (filter (allocated s) bs) + payload s (filter (free_block s) bs)
           + length bs * sizeof_header + sizeof_free_list = unat (heap_size s)"
proof -
  from tiles_payload [OF heap_invD(1) [OF assms]]
  have "unat (heap_size s) = sizeof_free_list + payload s bs + length bs * sizeof_header"
    by (simp add: heap_end_def)
  with payload_split [of s "allocated s" bs] show ?thesis
    by (simp add: free_block_eq)
qed

text \<open>
  C5 (as amended). In every configuration that initialisation, \<open>mymalloc\<close>, \<open>myfree\<close> of
  pointers the client holds, and expansions lead to, as long as the heap is smaller
  than \<open>2^32\<close> bytes: the sizes of the allocated blocks, plus the sizes of the free
  blocks, plus one header for each block, plus the list descriptor at the start of
  the first page, make up the heap size. The blocks cover the heap behind the
  descriptor, the free ones are the free list, and the allocated ones are those whose
  pointers the client holds.
\<close>

theorem conservation_with_descriptor:
  assumes "reach (s, L)" and "bounded s"
  shows "payload s (filter (allocated s) (heap_blocks s))
           + payload s (filter (free_block s) (heap_blocks s))
           + length (heap_blocks s) * sizeof_header + sizeof_free_list
         = unat (heap_size s)
         \<and> tiles (hdr_size s) (heap_head s + sizeof_free_list) (heap_blocks s) (heap_end s)
         \<and> chain (hdr_next s) (list_head s) (filter (free_block s) (heap_blocks s))
         \<and> L = live s (heap_blocks s)"
proof -
  from reach_good [OF assms(1)] assms(2)
  have inv: "heap_inv s (heap_blocks s)" and L: "L = live s (heap_blocks s)"
    by (simp_all add: good_def)
  from heap_inv_conservation [OF inv] heap_invD(1,2) [OF inv] L show ?thesis
    by (simp add: free_block_eq)
qed

subsection \<open>The free list is never empty\<close>

text \<open>
  C10. In every configuration the allocator reaches after a successful
  \<open>mymalloc_init\<close>, the head of the free list is not \<open>NULL\<close>. As long as the heap is
  smaller than \<open>2^32\<close> bytes, the free list is a well-formed, non-empty chain whose
  last block is the last block of the heap, and \<open>expand_heap\<close>, which walks from
  the head to the tail without a test for \<open>NULL\<close>, returns.
\<close>

theorem free_list_never_empty:
  assumes "reach (s, L)"
  shows "list_head s \<noteq> NULL
         \<and> (bounded s \<longrightarrow>
              filter (free_block s) (heap_blocks s) \<noteq> []
              \<and> chain (hdr_next s) (list_head s) (filter (free_block s) (heap_blocks s))
              \<and> last (filter (free_block s) (heap_blocks s)) = last (heap_blocks s)
              \<and> (\<exists>r s'. expand_heap s = Some (r, s')))"
proof -
  from reach_counter(2) [OF assms] have h: "list_head s \<noteq> NULL" by simp
  have "filter (free_block s) (heap_blocks s) \<noteq> []
          \<and> chain (hdr_next s) (list_head s) (filter (free_block s) (heap_blocks s))
          \<and> last (filter (free_block s) (heap_blocks s)) = last (heap_blocks s)
          \<and> (\<exists>r s'. expand_heap s = Some (r, s'))"
    if "bounded s"
  proof -
    from reach_good [OF assms] that have inv: "heap_inv s (heap_blocks s)"
      by (simp add: good_def)
    note i = heap_invD [OF inv]
    from i(3,4) have "filter (free_block s) (heap_blocks s) \<noteq> []"
      "last (filter (free_block s) (heap_blocks s)) = last (heap_blocks s)"
      by (simp_all add: filter_nonempty_last last_filter free_block_def)
    moreover from expand_heap_heap_inv [OF inv] have "\<exists>r s'. expand_heap s = Some (r, s')"
      by blast
    ultimately show ?thesis using i(2) by (simp add: free_block_eq)
  qed
  with h show ?thesis by blast
qed

subsection \<open>Freeing a block\<close>

lemma mymalloc_served:
  assumes inv: "heap_inv s bs" and f: "f \<in> set bs" "\<not> allocated s f" "fits sz s f"
  shows "\<exists>q s'. mymalloc_loop sz s = Some (q, s') \<and> q \<noteq> NULL
           \<and> sbrk_calls s' = sbrk_calls s"
proof -
  let ?fl = "filter (\<lambda>b. \<not> allocated s b) bs"
  from find_free_space_loop_chain [OF heap_invD(2) [OF inv], of sz]
  have r: "find_free_space sz s
           = Some (case List.find (fits sz s) ?fl of Some a \<Rightarrow> a | None \<Rightarrow> NULL)"
    by (simp add: find_free_space_def)
  from f have "\<exists>a \<in> set ?fl. fits sz s a" by auto
  moreover have "NULL \<notin> set ?fl"
    using heap_invD(2) [OF inv] by (rule chain_nonnull)
  ultimately have "(case List.find (fits sz s) ?fl of Some a \<Rightarrow> a | None \<Rightarrow> NULL) \<noteq> NULL"
    using find_default_iff [of NULL ?fl "fits sz s"] by blast
  with r obtain fb where fb: "find_free_space sz s = Some fb" "fb \<noteq> NULL" by blast
  note ff = find_free_space_found [OF inv fb]
  from ff(1) obtain xs ys where bs: "bs = xs @ fb # ys"
    by (auto simp: in_set_conv_decomp)
  define t where "t = log_event Split (log_event Search s)"
  from inv bs have invt: "heap_inv t (xs @ fb # ys)" by (simp add: t_def)
  from ff(2,3) have fft: "\<not> allocated t fb" "fits sz t fb" by (simp_all add: t_def)
  from shrink_free_heap_inv [OF invt fft refl]
  obtain s1 where sh: "shrink_free fb sz t = Some (fb, s1)" and fr: "frame t s1"
    by blast
  from fb sh have "mymalloc_loop sz s = Some (fb + sizeof_header, pthread_mutex_unlock s1)"
    by (subst mymalloc_loop.simps) (simp add: t_def)
  moreover have "fb + sizeof_header \<noteq> NULL" by (simp add: c_defs)
  moreover from fr have "sbrk_calls (pthread_mutex_unlock s1) = sbrk_calls s"
    by (simp add: frame_def t_def)
  ultimately show ?thesis by blast
qed

text \<open>
  C2 (as amended). For a pointer \<open>p\<close> that \<open>mymalloc\<close> returned and that has not been
  freed since, \<open>myfree p\<close> returns 0, and afterwards one block of the free list
  contains the freed block. A later request is served from the free list, without
  asking the system for memory, when its rounded size plus one header is at most the
  size of the freed block: \<open>find_free_space\<close> wants room for a header on top of the
  request, so a request of the same size does not fit the freed block alone.
\<close>

theorem free_returns_span:
  assumes "reach (s, L)" and "bounded s" and "p \<in> L"
  shows "\<exists>s'. myfree p s = Some (0, s')
           \<and> chain (hdr_next s') (list_head s') (filter (free_block s') (heap_blocks s'))
           \<and> covers s' (heap_blocks s') (p - sizeof_header)
               (p + unat (hdr_size s (p - sizeof_header)))
           \<and> (\<forall>n. n \<noteq> 0
                 \<and> unat (round_request n) + sizeof_header \<le> unat (hdr_size s (p - sizeof_header))
               \<longrightarrow> (\<exists>q s''. mymalloc n s' = Some (q, s'') \<and> q \<noteq> NULL
                      \<and> sbrk_calls s'' = sbrk_calls s'))"
proof -
  from reach_good [OF assms(1)] assms(2)
  have inv: "heap_inv s (heap_blocks s)" and L: "L = live s (heap_blocks s)"
    by (simp_all add: good_def)
  from assms(3) L have pl: "p \<in> live s (heap_blocks s)" by simp
  then have p16: "sizeof_header \<le> p" by (auto simp: live_def)
  from myfree_heap_inv [OF inv pl]
  obtain s' bs' where r: "myfree p s = Some (0, s')" and inv': "heap_inv s' bs'"
    and cv: "covers s' bs' (p - sizeof_header) (p + unat (hdr_size s (p - sizeof_header)))"
    by blast
  note bl = heap_inv_blocks [OF inv']
  from cv obtain f where f: "f \<in> set bs'" "\<not> allocated s' f" "f \<le> p - sizeof_header"
    "p + unat (hdr_size s (p - sizeof_header)) \<le> f + unat (hdr_size s' f) + sizeof_header"
    by (auto simp: covers_def)
  from f(3,4) p16 have big: "unat (hdr_size s (p - sizeof_header)) \<le> unat (hdr_size s' f)"
    by simp
  have "\<exists>q s''. mymalloc n s' = Some (q, s'') \<and> q \<noteq> NULL \<and> sbrk_calls s'' = sbrk_calls s'"
    if n: "n \<noteq> 0"
      "unat (round_request n) + sizeof_header \<le> unat (hdr_size s (p - sizeof_header))" for n
  proof -
    from n(2) big have "fits (round_request n) (pthread_mutex_lock s') f"
      by (simp add: fits_def)
    moreover from inv' have "heap_inv (pthread_mutex_lock s') bs'" by simp
    moreover from f(2) have "\<not> allocated (pthread_mutex_lock s') f"
      by (simp add: allocated_def)
    ultimately have "\<exists>q s''. mymalloc_loop (round_request n) (pthread_mutex_lock s') = Some (q, s'')
        \<and> q \<noteq> NULL \<and> sbrk_calls s'' = sbrk_calls (pthread_mutex_lock s')"
      using f(1) by (intro mymalloc_served)
    with n(1) show ?thesis by (simp add: mymalloc_def)
  qed
  then have "\<forall>n. n \<noteq> 0
                 \<and> unat (round_request n) + sizeof_header \<le> unat (hdr_size s (p - sizeof_header))
               \<longrightarrow> (\<exists>q s''. mymalloc n s' = Some (q, s'') \<and> q \<noteq> NULL
                      \<and> sbrk_calls s'' = sbrk_calls s')"
    by blast
  moreover from heap_invD(2) [OF inv']
  have "chain (hdr_next s') (list_head s') (filter (free_block s') (heap_blocks s'))"
    by (simp add: bl free_block_eq)
  moreover from cv
  have "covers s' (heap_blocks s') (p - sizeof_header)
          (p + unat (hdr_size s (p - sizeof_header)))"
    by (simp add: bl)
  ultimately show ?thesis using r by (intro exI [of _ s']) simp
qed

subsection \<open>The expansion schedule\<close>

lemma expand_heap_step:
  assumes "expand_heap s = Some (r, s')"
  shows "expansion_counter s' = expansion_counter s + 1 \<and> sbrk_calls s' = Suc (sbrk_calls s)
         \<and> (if refused (unat (request_size s)) s
             then r = 0 \<and> heap_size s' = heap_size s \<and> brk s' = brk s
             else r = request_size s \<and> heap_size s' = heap_size s + request_size s
               \<and> brk s' = brk s + unat (request_size s))"
proof (cases "refused (unat (request_size s)) s")
  case True
  from expand_heap_refusal [of s] True assms show ?thesis
    by (auto simp: request_size_def)
next
  case False
  then have "os_grants s (sbrk_calls s)" "brk s + unat (request_size s) < FAILED"
    by (simp_all add: refused_iff)
  with assms False show ?thesis
    by (auto simp: expand_heap_def sbrk_def Let_def request_size_def split: bind_splits)
qed

lemma request_size_small:
  assumes "k < 2 ^ 20"
  shows "unat (of_nat PAGE_SIZE * of_nat k :: u32) = PAGE_SIZE * k"
proof -
  from assms have "PAGE_SIZE * k < 2 ^ 32" by (simp add: PAGE_SIZE_def)
  then have "unat (of_nat (PAGE_SIZE * k) :: u32) = PAGE_SIZE * k"
    by (simp only: unat_of_nat) simp
  then show ?thesis by (simp only: of_nat_mult)
qed

lemma good_heap_size:
  assumes "good (s, L)"
  shows "unat (heap_size s) = brk s - heap_head s" "heap_head s \<le> brk s"
  using heap_invD(6) [of s "heap_blocks s"] assms
  by (simp_all add: good_def heap_end_def)

text \<open>
  C4 (as amended). The expansion counter is the number of \<open>sbrk\<close> calls made so far,
  the reservation of \<open>mymalloc_init\<close> being the first: every call of \<open>expand_heap\<close>
  increments it, granted or refused. The call made when the counter is \<open>k\<close> asks for
  \<open>4096 * k\<close> bytes (for \<open>k\<close> below \<open>2^20\<close>, where the product fits 32 bits); when it is
  granted the break and the heap size move up by that amount, when it is refused they
  stay. No step of the allocator makes the heap size smaller, as long as the heap is
  smaller than \<open>2^32\<close> bytes.
\<close>

theorem expansion_schedule:
  assumes "reach (s, L)"
  shows "expansion_counter s = of_nat (sbrk_calls s)
         \<and> (\<forall>r s'. expand_heap s = Some (r, s') \<longrightarrow>
               expansion_counter s' = expansion_counter s + 1
               \<and> sbrk_calls s' = Suc (sbrk_calls s)
               \<and> (if refused (unat (request_size s)) s
                   then r = 0 \<and> heap_size s' = heap_size s \<and> brk s' = brk s
                   else r = request_size s \<and> heap_size s' = heap_size s + request_size s
                     \<and> brk s' = brk s + unat (request_size s)))
         \<and> (sbrk_calls s < 2 ^ 20 \<longrightarrow> unat (request_size s) = PAGE_SIZE * sbrk_calls s)
         \<and> (\<forall>s' L'. step (s, L) (s', L') \<and> bounded s' \<longrightarrow>
               unat (heap_size s) \<le> unat (heap_size s'))"
proof -
  from reach_counter(1) [OF assms] have c: "expansion_counter s = of_nat (sbrk_calls s)"
    by simp
  have "unat (request_size s) = PAGE_SIZE * sbrk_calls s" if "sbrk_calls s < 2 ^ 20"
    using request_size_small [OF that] by (simp add: request_size_def c)
  moreover have "unat (heap_size s) \<le> unat (heap_size s')"
    if st: "step (s, L) (s', L')" and bd: "bounded s'" for s' L'
  proof -
    from step_grown(1) [OF st] have g: "grown s s'" by simp
    from reach.step [OF assms st] have r': "reach (s', L')" .
    from reach_good [OF r'] bd have g': "good (s', L')" by simp
    from grown_bounded [OF g bd] reach_good [OF assms] have g0: "good (s, L)" by simp
    from g have "brk s \<le> brk s'" "heap_head s' = heap_head s"
      by (simp_all add: grown_def)
    with good_heap_size [OF g0] good_heap_size [OF g'] show ?thesis
      by simp
  qed
  ultimately show ?thesis using c expand_heap_step [of s] by blast
qed

subsection \<open>The lock\<close>

lemma unlocked_rounds [simp]:
  "unlocked True (concat (replicate k [Search, Expand]) @ es) = unlocked True es"
  by (induction k) simp_all

lemma locking_rounds [simp]:
  "locking True (concat (replicate k [Search, Expand]) @ es) = locking True es"
  by (induction k) simp_all


subsection \<open>The example states\<close>

lemma find_free_space_loop_hit:
  "p \<noteq> NULL \<Longrightarrow> unat sz + sizeof_header \<le> unat (hdr_size s p) \<Longrightarrow>
   find_free_space_loop sz p s = Some p"
  by (subst find_free_space_loop.simps) simp

lemma find_free_space_loop_miss:
  "p \<noteq> NULL \<Longrightarrow> \<not> unat sz + sizeof_header \<le> unat (hdr_size s p) \<Longrightarrow>
   find_free_space_loop sz p s = find_free_space_loop sz (hdr_next s p) s"
  by (subst find_free_space_loop.simps) simp


lemma mymalloc_loop_found:
  "find_free_space sz s = Some f \<Longrightarrow> f \<noteq> NULL \<Longrightarrow>
   shrink_free f sz (log_event Split (log_event Search s)) = Some (nb, s1) \<Longrightarrow>
   mymalloc_loop sz s = Some (nb + sizeof_header, pthread_mutex_unlock s1)"
  by (subst mymalloc_loop.simps) simp

lemma mymalloc_loop_more:
  "find_free_space sz s = Some NULL \<Longrightarrow>
   expand_heap (log_event Expand (log_event Search s)) = Some (r, s1) \<Longrightarrow> r \<noteq> 0 \<Longrightarrow>
   mymalloc_loop sz s = mymalloc_loop sz s1"
  by (subst mymalloc_loop.simps) simp

lemma mymalloc_loop_fail:
  "find_free_space sz s = Some NULL \<Longrightarrow>
   expand_heap (log_event Expand (log_event Search s)) = Some (0, s1) \<Longrightarrow>
   mymalloc_loop sz s = Some (NULL, pthread_mutex_unlock s1)"
  by (subst mymalloc_loop.simps) simp

lemma expand_heap_loop_last:
  "p \<noteq> NULL \<Longrightarrow> hdr_next s p = NULL \<Longrightarrow> expand_heap_loop p s = Some p"
  by (subst expand_heap_loop.simps) simp

lemma init_generous:
  "mymalloc_init (fresh 4096 grant_all zero_sizes zero_links) = (0, heap_generous)"
proof -
  have "\<not> refused PAGE_SIZE (fresh 4096 grant_all zero_sizes zero_links)"
    by (simp add: refused_iff fresh_def grant_all_def c_defs)
  from mymalloc_init_granted [OF this] show ?thesis
    by (simp add: heap_generous_def)
qed

lemma heap_generous_eq:
  "heap_generous =
     \<lparr>hdr_size = zero_sizes(4144 := 4032), hdr_next = zero_links(4144 := 0),
      list_head = 4144, head_list = 4096, used_head = 18446744073709551615,
      expansion_counter = 1, heap_size = 4096, heap_head = 4096, lock_trace = [],
      brk = 8192, sbrk_calls = 1, os_grants = grant_all\<rparr>"
proof -
  have "\<not> refused PAGE_SIZE (fresh 4096 grant_all zero_sizes zero_links)"
    by (simp add: refused_iff fresh_def grant_all_def c_defs)
  from mymalloc_init_granted [OF this] show ?thesis
    by (simp add: heap_generous_def fresh_def c_defs)
qed

lemma malloc_one:
  "mymalloc 64 heap_generous =
     Some (4160,
       \<lparr>hdr_size = zero_sizes(4144 := 64, 4224 := 3952),
        hdr_next = zero_links(4144 := 18446744073709551615, 4224 := 0),
        list_head = 4224, head_list = 4096, used_head = 18446744073709551615,
        expansion_counter = 1, heap_size = 4096, heap_head = 4096,
        lock_trace = [Acquire, Search, Split, Release],
        brk = 8192, sbrk_calls = 1, os_grants = grant_all\<rparr>)"
proof -
  let ?s = "pthread_mutex_lock heap_generous"
  let ?t = "log_event Split (log_event Search ?s)"
  have f: "find_free_space 64 ?s = Some 4144"
    by (simp add: find_free_space_def heap_generous_eq pthread_mutex_lock_def
        find_free_space_loop_hit c_defs)
  have "list_head ?t = 4144" "(4144::nat) \<noteq> NULL"
    by (simp_all add: heap_generous_eq c_defs)
  from shrink_free_head [OF this, of 64]
  have s: "shrink_free 4144 64 ?t =
      Some (4144,
       \<lparr>hdr_size = zero_sizes(4144 := 64, 4224 := 3952),
        hdr_next = zero_links(4144 := 18446744073709551615, 4224 := 0),
        list_head = 4224, head_list = 4096, used_head = 18446744073709551615,
        expansion_counter = 1, heap_size = 4096, heap_head = 4096,
        lock_trace = [Acquire, Search, Split],
        brk = 8192, sbrk_calls = 1, os_grants = grant_all\<rparr>)"
    by (simp add: heap_generous_eq pthread_mutex_lock_def log_event_def c_defs fun_upd_twist)
  have "(4144::nat) \<noteq> NULL" by (simp add: c_defs)
  from mymalloc_loop_found [OF f this s] show ?thesis
    by (simp add: mymalloc_def round_request_def pthread_mutex_unlock_def c_defs)
qed

lemma heap_one_eq:
  "heap_one =
       \<lparr>hdr_size = zero_sizes(4144 := 64, 4224 := 3952),
        hdr_next = zero_links(4144 := 18446744073709551615, 4224 := 0),
        list_head = 4224, head_list = 4096, used_head = 18446744073709551615,
        expansion_counter = 1, heap_size = 4096, heap_head = 4096,
        lock_trace = [Acquire, Search, Split, Release],
        brk = 8192, sbrk_calls = 1, os_grants = grant_all\<rparr>"
  by (simp add: heap_one_def malloc_one)

lemma reach_generous: "reach (heap_generous, {})"
  using init_generous by (rule reach.init)

lemma reach_one: "reach (heap_one, {4160})"
proof -
  have "mymalloc 64 heap_generous = Some (4160, heap_one)"
    by (simp add: malloc_one heap_one_eq)
  then have "step (heap_generous, {}) (heap_one, if (4160::nat) = NULL then {} else insert 4160 {})"
    by (rule step.malloc)
  then have "step (heap_generous, {}) (heap_one, {4160})" by (simp add: c_defs)
  with reach_generous show ?thesis by (rule reach.step)
qed

lemma bounded_one: "bounded heap_one" "bounded heap_generous"
  by (simp_all add: bounded_def heap_one_eq heap_generous_eq)

lemma blocks_generous: "heap_blocks heap_generous = [4144]"
proof -
  from mymalloc_init_heap_inv(1) [OF init_generous]
  have "heap_inv heap_generous [heap_head heap_generous + sizeof_free_list]" .
  from heap_inv_blocks [OF this] show ?thesis
    by (simp add: heap_generous_eq c_defs)
qed


lemma blocks_one: "heap_blocks heap_one = [4144, 4224]"
  by (simp add: heap_blocks_def heap_blocks_from.simps heap_end_def heap_one_eq c_defs)

lemma malloc_two:
  "mymalloc 64 heap_one =
     Some (4240,
       \<lparr>hdr_size = zero_sizes(4144 := 64, 4224 := 64, 4304 := 3872),
        hdr_next = zero_links(4144 := 18446744073709551615,
                     4224 := 18446744073709551615, 4304 := 0),
        list_head = 4304, head_list = 4096, used_head = 18446744073709551615,
        expansion_counter = 1, heap_size = 4096, heap_head = 4096,
        lock_trace = [Acquire, Search, Split, Release, Acquire, Search, Split, Release],
        brk = 8192, sbrk_calls = 1, os_grants = grant_all\<rparr>)"
proof -
  let ?s = "pthread_mutex_lock heap_one"
  let ?t = "log_event Split (log_event Search ?s)"
  have f: "find_free_space 64 ?s = Some 4224"
    by (simp add: find_free_space_def heap_one_eq pthread_mutex_lock_def
        find_free_space_loop_hit c_defs)
  have "list_head ?t = 4224" "(4224::nat) \<noteq> NULL"
    by (simp_all add: heap_one_eq c_defs)
  from shrink_free_head [OF this, of 64]
  have s: "shrink_free 4224 64 ?t =
      Some (4224,
       \<lparr>hdr_size = zero_sizes(4144 := 64, 4224 := 64, 4304 := 3872),
        hdr_next = zero_links(4144 := 18446744073709551615,
                     4224 := 18446744073709551615, 4304 := 0),
        list_head = 4304, head_list = 4096, used_head = 18446744073709551615,
        expansion_counter = 1, heap_size = 4096, heap_head = 4096,
        lock_trace = [Acquire, Search, Split, Release, Acquire, Search, Split],
        brk = 8192, sbrk_calls = 1, os_grants = grant_all\<rparr>)"
    by (simp add: heap_one_eq pthread_mutex_lock_def log_event_def c_defs fun_upd_twist)
  have "(4224::nat) \<noteq> NULL" by (simp add: c_defs)
  from mymalloc_loop_found [OF f this s] show ?thesis
    by (simp add: mymalloc_def round_request_def pthread_mutex_unlock_def c_defs)
qed

lemma heap_two_eq:
  "heap_two =
       \<lparr>hdr_size = zero_sizes(4144 := 64, 4224 := 64, 4304 := 3872),
        hdr_next = zero_links(4144 := 18446744073709551615,
                     4224 := 18446744073709551615, 4304 := 0),
        list_head = 4304, head_list = 4096, used_head = 18446744073709551615,
        expansion_counter = 1, heap_size = 4096, heap_head = 4096,
        lock_trace = [Acquire, Search, Split, Release, Acquire, Search, Split, Release],
        brk = 8192, sbrk_calls = 1, os_grants = grant_all\<rparr>"
  by (simp add: heap_two_def malloc_two)

lemma reach_two: "reach (heap_two, {4160, 4240})"
proof -
  have "mymalloc 64 heap_one = Some (4240, heap_two)"
    by (simp add: malloc_two heap_two_eq)
  then have "step (heap_one, {4160})
               (heap_two, if (4240::nat) = NULL then {4160} else insert 4240 {4160})"
    by (rule step.malloc)
  then have "step (heap_one, {4160}) (heap_two, {4160, 4240})"
    by (simp add: c_defs insert_commute)
  with reach_one show ?thesis by (rule reach.step)
qed

lemma free_three:
  "myfree 4160 heap_two =
     Some (0,
       \<lparr>hdr_size = zero_sizes(4144 := 64, 4224 := 64, 4304 := 3872),
        hdr_next = zero_links(4144 := 4304,
                     4224 := 18446744073709551615, 4304 := 0),
        list_head = 4144, head_list = 4096, used_head = 18446744073709551615,
        expansion_counter = 1, heap_size = 4096, heap_head = 4096,
        lock_trace = [Acquire, Search, Split, Release, Acquire, Search, Split, Release,
                      Range_test, Marker_test, Acquire, Insert, Release],
        brk = 8192, sbrk_calls = 1, os_grants = grant_all\<rparr>)"
  by (simp add: myfree_def heap_two_eq insert_free_space_def coalescing_def Let_def
      pthread_mutex_lock_def pthread_mutex_unlock_def log_event_def set_next_def set_size_def
      c_defs fun_upd_twist)

lemma heap_three_eq:
  "heap_three =
       \<lparr>hdr_size = zero_sizes(4144 := 64, 4224 := 64, 4304 := 3872),
        hdr_next = zero_links(4144 := 4304,
                     4224 := 18446744073709551615, 4304 := 0),
        list_head = 4144, head_list = 4096, used_head = 18446744073709551615,
        expansion_counter = 1, heap_size = 4096, heap_head = 4096,
        lock_trace = [Acquire, Search, Split, Release, Acquire, Search, Split, Release,
                      Range_test, Marker_test, Acquire, Insert, Release],
        brk = 8192, sbrk_calls = 1, os_grants = grant_all\<rparr>"
  by (simp add: heap_three_def free_three)

lemma malloc_after_three: "map_option fst (mymalloc 64 heap_three) = Some 4320"
proof -
  let ?s = "pthread_mutex_lock heap_three"
  let ?t = "log_event Split (log_event Search ?s)"
  have f: "find_free_space 64 ?s = Some 4304"
    by (simp add: find_free_space_def heap_three_eq pthread_mutex_lock_def
        find_free_space_loop_hit find_free_space_loop_miss c_defs)
  have c: "chain (hdr_next ?t) (list_head ?t) [4144, 4304]"
    by (simp add: heap_three_eq c_defs)
  have "apart (hdr_size ?t) [4144, 4304]" "4304 \<in> set [4144, 4304::nat]" "fits 64 ?t 4304"
    by (simp_all add: heap_three_eq fits_def c_defs)
  from shrink_free_effect [OF c this refl]
  obtain s1 where s: "shrink_free 4304 64 ?t = Some (4304, s1)" by blast
  have "(4304::nat) \<noteq> NULL" by (simp add: c_defs)
  from mymalloc_loop_found [OF f this s] show ?thesis
    by (simp add: mymalloc_def round_request_def c_defs)
qed

lemma expand_generous:
  "expand_heap heap_generous =
     Some (4096,
       \<lparr>hdr_size = zero_sizes(4144 := 8128), hdr_next = zero_links(4144 := 0),
        list_head = 4144, head_list = 4096, used_head = 18446744073709551615,
        expansion_counter = 2, heap_size = 8192, heap_head = 4096, lock_trace = [],
        brk = 12288, sbrk_calls = 2, os_grants = grant_all\<rparr>)"
proof -
  have g: "\<not> refused (unat (4096 :: u32)) heap_generous"
    by (simp add: refused_iff heap_generous_eq grant_all_def c_defs)
  have n: "(4096 :: u32) = of_nat PAGE_SIZE * expansion_counter heap_generous"
    by (simp add: heap_generous_eq c_defs)
  have c: "chain (hdr_next heap_generous) (list_head heap_generous) [4144]"
    by (simp add: heap_generous_eq c_defs)
  from expand_heap_granted [OF g n c] show ?thesis
    by (simp add: heap_generous_eq)
qed

lemma heap_grown_eq:
  "heap_grown =
       \<lparr>hdr_size = zero_sizes(4144 := 8128), hdr_next = zero_links(4144 := 0),
        list_head = 4144, head_list = 4096, used_head = 18446744073709551615,
        expansion_counter = 2, heap_size = 8192, heap_head = 4096, lock_trace = [],
        brk = 12288, sbrk_calls = 2, os_grants = grant_all\<rparr>"
  by (simp add: heap_grown_def expand_generous)

lemma heap_moody_eq:
  "heap_moody =
     \<lparr>hdr_size = zero_sizes(4144 := 4032), hdr_next = zero_links(4144 := 0),
      list_head = 4144, head_list = 4096, used_head = 18446744073709551615,
      expansion_counter = 1, heap_size = 4096, heap_head = 4096, lock_trace = [],
      brk = 8192, sbrk_calls = 1, os_grants = grant_but_second\<rparr>"
proof -
  have "\<not> refused PAGE_SIZE (fresh 4096 grant_but_second zero_sizes zero_links)"
    by (simp add: refused_iff fresh_def grant_but_second_def c_defs)
  from mymalloc_init_granted [OF this] show ?thesis
    by (simp add: heap_moody_def fresh_def c_defs)
qed

lemma expand_moody:
  "expand_heap heap_moody = Some (0, heap_moody\<lparr>expansion_counter := 2, sbrk_calls := 2\<rparr>)"
proof -
  have "refused (unat (of_nat PAGE_SIZE * expansion_counter heap_moody)) heap_moody"
    by (simp add: refused_iff heap_moody_eq grant_but_second_def)
  from expand_heap_refusal [OF this] show ?thesis
    by (simp add: heap_moody_eq)
qed

lemma heap_sulking_eq:
  "heap_sulking =
     \<lparr>hdr_size = zero_sizes(4144 := 4032), hdr_next = zero_links(4144 := 0),
      list_head = 4144, head_list = 4096, used_head = 18446744073709551615,
      expansion_counter = 2, heap_size = 4096, heap_head = 4096, lock_trace = [],
      brk = 8192, sbrk_calls = 2, os_grants = grant_but_second\<rparr>"
  by (simp add: heap_sulking_def expand_moody) (simp add: heap_moody_eq)

lemma expand_sulking:
  "expand_heap heap_sulking =
     Some (8192,
       \<lparr>hdr_size = zero_sizes(4144 := 12224), hdr_next = zero_links(4144 := 0),
        list_head = 4144, head_list = 4096, used_head = 18446744073709551615,
        expansion_counter = 3, heap_size = 12288, heap_head = 4096, lock_trace = [],
        brk = 16384, sbrk_calls = 3, os_grants = grant_but_second\<rparr>)"
proof -
  have g: "\<not> refused (unat (8192 :: u32)) heap_sulking"
    by (simp add: refused_iff heap_sulking_eq grant_but_second_def c_defs)
  have n: "(8192 :: u32) = of_nat PAGE_SIZE * expansion_counter heap_sulking"
    by (simp add: heap_sulking_eq c_defs)
  have c: "chain (hdr_next heap_sulking) (list_head heap_sulking) [4144]"
    by (simp add: heap_sulking_eq c_defs)
  from expand_heap_granted [OF g n c] show ?thesis
    by (simp add: heap_sulking_eq)
qed


lemma malloc_wrapped:
  "mymalloc 4294967295 heap_generous =
     Some (4160,
       \<lparr>hdr_size = zero_sizes(4144 := 0, 4160 := 4016),
        hdr_next = zero_links(4144 := 18446744073709551615, 4160 := 0),
        list_head = 4160, head_list = 4096, used_head = 18446744073709551615,
        expansion_counter = 1, heap_size = 4096, heap_head = 4096,
        lock_trace = [Acquire, Search, Split, Release],
        brk = 8192, sbrk_calls = 1, os_grants = grant_all\<rparr>)"
proof -
  let ?s = "pthread_mutex_lock heap_generous"
  let ?t = "log_event Split (log_event Search ?s)"
  have r: "round_request 4294967295 = 0"
    by (simp add: round_request_def c_defs)
  have f: "find_free_space 0 ?s = Some 4144"
    by (simp add: find_free_space_def heap_generous_eq pthread_mutex_lock_def
        find_free_space_loop_hit c_defs)
  have "list_head ?t = 4144" "(4144::nat) \<noteq> NULL"
    by (simp_all add: heap_generous_eq c_defs)
  from shrink_free_head [OF this, of 0]
  have s: "shrink_free 4144 0 ?t =
      Some (4144,
       \<lparr>hdr_size = zero_sizes(4144 := 0, 4160 := 4016),
        hdr_next = zero_links(4144 := 18446744073709551615, 4160 := 0),
        list_head = 4160, head_list = 4096, used_head = 18446744073709551615,
        expansion_counter = 1, heap_size = 4096, heap_head = 4096,
        lock_trace = [Acquire, Search, Split],
        brk = 8192, sbrk_calls = 1, os_grants = grant_all\<rparr>)"
    by (simp add: heap_generous_eq pthread_mutex_lock_def log_event_def c_defs fun_upd_twist)
  have "(4144::nat) \<noteq> NULL" by (simp add: c_defs)
  from mymalloc_loop_found [OF f this s] show ?thesis
    by (simp add: mymalloc_def r pthread_mutex_unlock_def c_defs)
qed


subsection \<open>The theorems at the example states\<close>

text \<open>
  C7 at \<open>heap_three\<close>, whose free list is the block at 4144, of size 64, and the block
  at 4304.
\<close>

theorem find_free_space_first_fit_witness:
  "chain (hdr_next heap_three) (list_head heap_three) [4144, 4304]
   \<and> find_free_space 64 heap_three = Some 4304
   \<and> find_free_space 48 heap_three = Some 4144
   \<and> find_free_space 5000 heap_three = Some NULL"
proof -
  have c: "chain (hdr_next heap_three) (list_head heap_three) [4144, 4304]"
    by (simp add: heap_three_eq c_defs)
  from c find_free_space_first_fit [OF c, where sz = 64]
    find_free_space_first_fit [OF c, where sz = 48]
    find_free_space_first_fit [OF c, where sz = 5000]
  show ?thesis
    by (simp add: fits_def heap_three_eq c_defs)
qed

text \<open>
  C6 at \<open>heap_generous\<close>: the only block, at 4144, is split for a request of 64.
\<close>

theorem shrink_free_carves_front_witness:
  "chain (hdr_next heap_generous) (list_head heap_generous) [4144]
   \<and> apart (hdr_size heap_generous) [4144] \<and> 4144 \<in> set [4144 :: addr]
   \<and> fits 64 heap_generous 4144
   \<and> map_option fst (shrink_free 4144 64 heap_generous) = Some 4144
   \<and> map_option (size_at 4144 \<circ> snd) (shrink_free 4144 64 heap_generous) = Some 64
   \<and> map_option (size_at 4224 \<circ> snd) (shrink_free 4144 64 heap_generous) = Some 3952
   \<and> map_option (list_head \<circ> snd) (shrink_free 4144 64 heap_generous) = Some 4224"
proof -
  have c: "chain (hdr_next heap_generous) (list_head heap_generous) [4144]"
    and a: "apart (hdr_size heap_generous) [4144]"
    and m: "4144 \<in> set [4144 :: addr]"
    and f: "fits 64 heap_generous 4144"
    by (simp_all add: heap_generous_eq fits_def c_defs)
  from shrink_free_carves_front [OF c a m f]
  obtain s' where "shrink_free 4144 64 heap_generous = Some (4144, s')"
    "hdr_size s' 4144 = 64"
    "hdr_size s' (4144 + unat (64 :: u32) + sizeof_header)
       = hdr_size heap_generous 4144 - 64 - of_nat sizeof_header"
    "list_head s' = (if list_head heap_generous = 4144 then 4144 + unat (64 :: u32) + sizeof_header
                     else list_head heap_generous)"
    by blast
  with c a m f show ?thesis
    by (simp add: size_at_def heap_generous_eq c_defs)
qed

text \<open>
  C3 fails for the pointers from \<open>heap_head\<close> to \<open>heap_head + 7\<close>. In \<open>heap_generous\<close>,
  right after the initialisation, the heap is the addresses from 4096 to 8191. The
  pointer 4096 is in the range of the claim, and the range test of \<open>myfree\<close> lets it
  through; the marker test then reads \<open>old_head->next\<close>, the eight bytes from 4088 on,
  below the heap. The call returns neither 1 nor 0.
\<close>

theorem myfree_reads_below_heap:
  "reach (heap_generous, {})
   \<and> heap_head heap_generous = 4096 \<and> unat (heap_size heap_generous) = 4096
   \<and> myfree 4096 heap_generous = None"
  using reach_generous
  by (simp add: myfree_def heap_generous_eq Let_def c_defs)



text \<open>
  C4 at \<open>heap_generous\<close>: the first expansion asks for 4096 bytes and is granted.
\<close>

theorem expansion_schedule_witness:
  "reach (heap_generous, {})
   \<and> expansion_counter heap_generous = 1 \<and> sbrk_calls heap_generous = 1
   \<and> \<not> refused (unat (request_size heap_generous)) heap_generous
   \<and> expand_heap heap_generous = Some (4096, heap_grown)
   \<and> expansion_counter heap_grown = 2 \<and> heap_size heap_grown = 8192
   \<and> sbrk_calls heap_generous < 2 ^ 20 \<and> unat (request_size heap_generous) = 4096
   \<and> step (heap_generous, {}) (heap_grown, {}) \<and> bounded heap_grown
   \<and> unat (heap_size heap_generous) \<le> unat (heap_size heap_grown)"
proof -
  have e: "expand_heap heap_generous = Some (4096, heap_grown)"
    by (simp add: expand_generous heap_grown_eq)
  then have st: "step (heap_generous, {}) (heap_grown, {})" by (rule step.expand)
  have b: "bounded heap_grown" by (simp add: bounded_def heap_grown_eq)
  have g: "\<not> refused (unat (request_size heap_generous)) heap_generous"
    by (simp add: refused_iff request_size_def heap_generous_eq grant_all_def c_defs)
  have k: "sbrk_calls heap_generous < 2 ^ 20" by (simp add: heap_generous_eq)
  from expansion_schedule [OF reach_generous] e st b g k
  have "expansion_counter heap_generous = of_nat (sbrk_calls heap_generous)"
    "expansion_counter heap_grown = expansion_counter heap_generous + 1"
    "heap_size heap_grown = heap_size heap_generous + request_size heap_generous"
    "unat (request_size heap_generous) = PAGE_SIZE * sbrk_calls heap_generous"
    "unat (heap_size heap_generous) \<le> unat (heap_size heap_grown)"
    by (auto split: if_splits)
  with reach_generous e st b g k show ?thesis
    by (simp add: heap_generous_eq request_size_def c_defs)
qed

text \<open>
  C4 as stated fails in \<open>heap_moody\<close>: the first expansion is refused and leaves the
  heap size as it was, and the next one, the first to succeed, is granted 8192 bytes,
  not 4096.
\<close>

theorem expansion_after_refusal:
  "reach (heap_moody, {})
   \<and> expand_heap heap_moody = Some (0, heap_sulking)
   \<and> heap_size heap_sulking = heap_size heap_moody
   \<and> map_option fst (expand_heap heap_sulking) = Some 8192
   \<and> map_option (heap_size \<circ> snd) (expand_heap heap_sulking) = Some (4096 + 8192)"
proof -
  have "\<not> refused PAGE_SIZE (fresh 4096 grant_but_second zero_sizes zero_links)"
    by (simp add: refused_iff fresh_def grant_but_second_def c_defs)
  from mymalloc_init_granted [OF this]
  have "mymalloc_init (fresh 4096 grant_but_second zero_sizes zero_links) = (0, heap_moody)"
    by (simp add: heap_moody_def)
  then have "reach (heap_moody, {})" by (rule reach.init)
  moreover have "expand_heap heap_moody = Some (0, heap_sulking)"
    by (simp add: expand_moody heap_sulking_eq) (simp add: heap_moody_eq)
  moreover have "heap_size heap_sulking = heap_size heap_moody"
    by (simp add: heap_sulking_eq heap_moody_eq)
  moreover have "map_option fst (expand_heap heap_sulking) = Some 8192"
    "map_option (heap_size \<circ> snd) (expand_heap heap_sulking) = Some (4096 + 8192)"
    by (simp_all add: expand_sulking)
  ultimately show ?thesis by simp
qed

text \<open>
  C5 at \<open>heap_two\<close>: two allocated blocks of 64 bytes, a free block of 3872 bytes,
  three headers and the descriptor make 4096 bytes.
\<close>

theorem conservation_with_descriptor_witness:
  "reach (heap_two, {4160, 4240}) \<and> bounded heap_two
   \<and> heap_blocks heap_two = [4144, 4224, 4304]
   \<and> payload heap_two (filter (allocated heap_two) (heap_blocks heap_two)) = 128
   \<and> payload heap_two (filter (free_block heap_two) (heap_blocks heap_two)) = 3872
   \<and> payload heap_two (filter (allocated heap_two) (heap_blocks heap_two))
       + payload heap_two (filter (free_block heap_two) (heap_blocks heap_two))
       + length (heap_blocks heap_two) * sizeof_header + sizeof_free_list
     = unat (heap_size heap_two)
   \<and> {4160, 4240} = live heap_two (heap_blocks heap_two)"
proof -
  have b: "bounded heap_two" by (simp add: bounded_def heap_two_eq)
  have bl: "heap_blocks heap_two = [4144, 4224, 4304]"
    by (simp add: heap_blocks_def heap_blocks_from.simps heap_end_def heap_two_eq c_defs)
  have "payload heap_two (filter (allocated heap_two) (heap_blocks heap_two)) = 128"
    "payload heap_two (filter (free_block heap_two) (heap_blocks heap_two)) = 3872"
    unfolding bl
    by (simp_all add: payload_def allocated_def free_block_def heap_two_eq c_defs)
  with conservation_with_descriptor [OF reach_two b] reach_two b bl show ?thesis
    by simp
qed

text \<open>
  C5 as stated fails right after initialisation: a free block of 4032 bytes and its
  header make 4048 bytes, and the heap size is 4096.
\<close>

theorem conservation_without_descriptor_fails:
  "reach (heap_generous, {})
   \<and> payload heap_generous (filter (allocated heap_generous) (heap_blocks heap_generous)) = 0
   \<and> payload heap_generous (filter (free_block heap_generous) (heap_blocks heap_generous)) = 4032
   \<and> length (heap_blocks heap_generous) * sizeof_header = 16
   \<and> unat (heap_size heap_generous) = 4096"
  using reach_generous
  by (simp add: blocks_generous payload_def allocated_def free_block_def)
     (simp add: heap_generous_eq c_defs)

text \<open>
  C10 at \<open>heap_two\<close>.
\<close>

theorem free_list_never_empty_witness:
  "reach (heap_two, {4160, 4240}) \<and> bounded heap_two
   \<and> list_head heap_two \<noteq> NULL
   \<and> filter (free_block heap_two) (heap_blocks heap_two) = [4304]
   \<and> last (heap_blocks heap_two) = 4304
   \<and> expand_heap heap_two \<noteq> None"
proof -
  have b: "bounded heap_two" by (simp add: bounded_def heap_two_eq)
  have bl: "heap_blocks heap_two = [4144, 4224, 4304]"
    by (simp add: heap_blocks_def heap_blocks_from.simps heap_end_def heap_two_eq c_defs)
  have fl: "filter (free_block heap_two) (heap_blocks heap_two) = [4304]"
    unfolding bl by (simp add: allocated_def free_block_def heap_two_eq c_defs)
  from free_list_never_empty [OF reach_two] b
  have "list_head heap_two \<noteq> NULL" "expand_heap heap_two \<noteq> None" by auto
  with reach_two b bl fl show ?thesis by simp
qed

text \<open>
  C2 at \<open>heap_two\<close>: the block of 64 bytes at 4144 is freed, and a request of 8 bytes
  is then served from the free list.
\<close>

theorem free_returns_span_witness:
  "reach (heap_two, {4160, 4240}) \<and> bounded heap_two \<and> 4160 \<in> {4160, 4240 :: addr}
   \<and> (8 :: u32) \<noteq> 0
   \<and> unat (round_request 8) + sizeof_header \<le> unat (hdr_size heap_two (4160 - sizeof_header))
   \<and> myfree 4160 heap_two = Some (0, heap_three)
   \<and> covers heap_three (heap_blocks heap_three) 4144 (4160 + 64)
   \<and> mymalloc 8 heap_three \<noteq> None
   \<and> map_option fst (mymalloc 8 heap_three) \<noteq> Some NULL
   \<and> map_option (sbrk_calls \<circ> snd) (mymalloc 8 heap_three) = Some (sbrk_calls heap_three)"
proof -
  have b: "bounded heap_two" by (simp add: bounded_def heap_two_eq)
  have m: "4160 \<in> {4160, 4240 :: addr}" by simp
  have n: "(8 :: u32) \<noteq> 0"
    "unat (round_request 8) + sizeof_header \<le> unat (hdr_size heap_two (4160 - sizeof_header))"
    by (simp_all add: round_request_def heap_two_eq c_defs)
  have f: "myfree 4160 heap_two = Some (0, heap_three)"
    by (simp add: free_three heap_three_eq)
  have z: "unat (hdr_size heap_two (4160 - sizeof_header)) = 64" "4160 - sizeof_header = 4144"
    by (simp_all add: heap_two_eq c_defs)
  from free_returns_span [OF reach_two b m] f n
  have "covers heap_three (heap_blocks heap_three) (4160 - sizeof_header)
          (4160 + unat (hdr_size heap_two (4160 - sizeof_header)))"
    and "\<exists>q s''. mymalloc 8 heap_three = Some (q, s'') \<and> q \<noteq> NULL
           \<and> sbrk_calls s'' = sbrk_calls heap_three"
    by auto
  with reach_two b m n f z show ?thesis by auto
qed

text \<open>
  C2 as stated fails in \<open>heap_two\<close>: after \<open>myfree(4160)\<close> the freed block of 64 bytes
  is on the free list, it does not pass the test of \<open>find_free_space\<close> for a request
  of 64 bytes, and \<open>mymalloc(64)\<close> takes its memory behind the second block.
\<close>

theorem freed_span_too_small_for_equal_request:
  "reach (heap_two, {4160, 4240})
   \<and> myfree 4160 heap_two = Some (0, heap_three)
   \<and> size_at 4144 heap_three = 64 \<and> free_block heap_three 4144
   \<and> \<not> fits 64 heap_three 4144
   \<and> find_free_space 64 heap_three = Some 4304
   \<and> map_option fst (mymalloc 64 heap_three) = Some 4320"
proof -
  have "find_free_space 64 heap_three = Some 4304"
    by (simp add: find_free_space_def heap_three_eq
        find_free_space_loop_hit find_free_space_loop_miss c_defs)
  with reach_two malloc_after_three show ?thesis
    by (simp add: free_three heap_three_eq size_at_def free_block_def allocated_def fits_def
        c_defs)
qed

text \<open>
  C8 fails for the sizes above \<open>2^32 - 8\<close>: rounding 4294967295 up to a multiple
  of 8 wraps around to 0, and \<open>mymalloc\<close> returns a block of size 0.
\<close>

theorem mymalloc_rounding_wraps:
  "round_request 4294967295 = 0
   \<and> map_option fst (mymalloc 4294967295 heap_generous) = Some 4160
   \<and> map_option (size_at (4160 - sizeof_header) \<circ> snd) (mymalloc 4294967295 heap_generous)
       = Some 0"
  by (simp add: malloc_wrapped size_at_def round_request_def c_defs)

subsection \<open>mymalloc returns\<close>

lemma shrink_free_returns:
  assumes c: "chain (hdr_next s) (list_head s) fl" and f: "f \<in> set fl"
  shows "\<exists>y. shrink_free f sz s = Some y"
proof (cases "list_head s = f")
  case True
  from c f have "f \<noteq> NULL" by (auto dest: chain_nonnull)
  from shrink_free_head [OF True this] show ?thesis by blast
next
  case False
  from f obtain xs ys where fl: "fl = xs @ f # ys"
    by (auto simp: in_set_conv_decomp)
  from c f have fn: "f \<noteq> NULL" by (auto dest: chain_nonnull)
  from c fl False have "xs \<noteq> []" by (cases xs) auto
  then obtain xs' t where xs: "xs = xs' @ [t]" by (cases xs rule: rev_cases) auto
  from c fl xs have "chain (hdr_next s) (list_head s) (xs' @ t # f # ys)" by simp
  then have "shrink_free_loop f (list_head s) s = Some t" and "hdr_next s t = f"
    by (auto intro: shrink_free_loop_chain simp: chain_append)
  with False fn show ?thesis
    by (simp add: shrink_free_def Let_def)
qed

lemma mymalloc_loop_returns:
  assumes "chain (hdr_next s) (list_head s) fl" "fl \<noteq> []"
  shows "\<exists>y. mymalloc_loop sz s = Some y"
  using assms
proof (induction "FAILED - brk s" arbitrary: s rule: less_induct)
  case less
  note c = less.prems(1) and ne = less.prems(2)
  let ?fb = "case List.find (fits sz s) fl of Some a \<Rightarrow> a | None \<Rightarrow> NULL"
  from find_free_space_loop_chain [OF c, of sz]
  have f: "find_free_space sz s = Some ?fb"
    by (simp add: find_free_space_def)
  show ?case
  proof (cases "?fb = NULL")
    case False
    then have "?fb \<in> set fl"
      by (auto split: option.splits dest: find_Some_in)
    moreover
    have "chain (hdr_next (log_event Split (log_event Search s)))
            (list_head (log_event Split (log_event Search s))) fl"
      using c by simp
    ultimately obtain nb s1
      where "shrink_free ?fb sz (log_event Split (log_event Search s)) = Some (nb, s1)"
      using shrink_free_returns [of "log_event Split (log_event Search s)" fl ?fb sz] by auto
    from mymalloc_loop_found [OF f False this] show ?thesis by blast
  next
    case True
    with f have f0: "find_free_space sz s = Some NULL" by simp
    define t where "t = log_event Expand (log_event Search s)"
    define n where "n = of_nat PAGE_SIZE * expansion_counter t"
    have ct: "chain (hdr_next t) (list_head t) fl" using c by (simp add: t_def)
    show ?thesis
    proof (cases "refused (unat n) t")
      case True
      from expand_heap_refusal [OF True [unfolded n_def]]
        mymalloc_loop_fail [OF f0, folded t_def]
      show ?thesis by blast
    next
      case False
      define s1 where "s1 = t\<lparr>hdr_size := (hdr_size t)(last fl := hdr_size t (last fl) + n),
                      expansion_counter := expansion_counter t + 1,
                      heap_size := heap_size t + n,
                      brk := brk t + unat n, sbrk_calls := Suc (sbrk_calls t)\<rparr>"
      from expand_heap_granted [OF False n_def ct ne]
      have e: "expand_heap t = Some (n, s1)" by (simp add: s1_def)
      show ?thesis
      proof (cases "n = 0")
        case True
        with e mymalloc_loop_fail [OF f0, folded t_def] show ?thesis by blast
      next
        case False
        then have "0 < unat n" by (simp add: unat_gt_0)
        moreover from \<open>\<not> refused (unat n) t\<close> have "brk s + unat n < FAILED"
          by (simp add: refused_iff t_def)
        ultimately have m: "FAILED - brk s1 < FAILED - brk s"
          by (simp add: s1_def t_def)
        have "chain (hdr_next s1) (list_head s1) fl"
          using c by (simp add: s1_def t_def)
        from less.hyps [OF m this ne] mymalloc_loop_more [OF f0 e [unfolded t_def] False]
        show ?thesis by simp
      qed
    qed
  qed
qed

lemma mymalloc_returns:
  assumes "reach (s, L)" and "bounded s"
  shows "\<exists>p s'. mymalloc n s = Some (p, s')"
proof (cases "n = 0")
  case True
  then show ?thesis by (simp add: mymalloc_def)
next
  case False
  from reach_good [OF assms(1)] assms(2) have inv: "heap_inv s (heap_blocks s)"
    by (simp add: good_def)
  let ?fl = "filter (\<lambda>b. \<not> allocated s b) (heap_blocks s)"
  from heap_invD(2-4) [OF inv]
  have "chain (hdr_next (pthread_mutex_lock s)) (list_head (pthread_mutex_lock s)) ?fl"
    and "?fl \<noteq> []"
    by (simp_all add: filter_nonempty_last)
  from mymalloc_loop_returns [OF this] False show ?thesis
    by (simp add: mymalloc_def)
qed

subsection \<open>The size of the block that mymalloc returns\<close>

lemma round_request_no_wrap:
  assumes "unat n \<le> 2 ^ 32 - 8"
  shows "unat (round_request n) = (if unat n mod 8 = 0 then unat n else unat n + 8 - unat n mod 8)"
proof -
  have m: "unat (n mod 8) = unat n mod 8"
    by (simp add: unat_mod)
  show ?thesis
  proof (cases "unat n mod 8 = 0")
    case True
    with m have "unat (n mod 8) = 0" by simp
    then have "n mod 8 = 0" by (simp only: unat_eq_zero)
    with True show ?thesis by (simp add: round_request_def BYTE_BOUNDARY_def)
  next
    case False
    have nz: "n mod 8 \<noteq> 0"
    proof
      assume "n mod 8 = 0"
      then have "unat (n mod 8) = 0" by (simp only: unsigned_0)
      with m False show False by simp
    qed
    from False have "unat n \<noteq> 4294967288" by auto
    with assms have "unat n + unat (8 :: u32) < 2 ^ 32" by simp
    then have a: "unat (n + 8) = unat n + 8"
      using unat_add_u32 [of n 8] by simp
    have "unat (n mod 8) \<le> unat (n + 8)"
      using m a by simp
    then have "n mod 8 \<le> n + 8" by (simp add: word_le_nat_alt)
    then have "unat (n + 8 - n mod 8) = unat (n + 8) - unat (n mod 8)"
      by (rule unat_sub)
    with a m nz False show ?thesis
      by (simp add: round_request_def BYTE_BOUNDARY_def)
  qed
qed

lemma round_request_covers:
  assumes "unat n \<le> 2 ^ 32 - 8"
  shows "unat n \<le> unat (round_request n)" and "8 dvd unat (round_request n)"
proof -
  note r = round_request_no_wrap [OF assms]
  show "unat n \<le> unat (round_request n)"
    unfolding r by (simp add: le_diff_conv2 trans_le_add1 less_imp_le)
  show "8 dvd unat (round_request n)"
    unfolding r by presburger
qed

lemma mymalloc_block_size:
  assumes r: "reach (s, L)" and m: "mymalloc n s = Some (p, s')" and b: "bounded s'"
    and p: "p \<noteq> NULL"
  shows "hdr_size s' (p - sizeof_header) = round_request n"
    and "allocated s' (p - sizeof_header)" and "p \<notin> L"
    and "p - sizeof_header \<in> set (heap_blocks s')"
proof -
  from mymalloc_grown(1) [OF m] b have "bounded s" by (rule grown_bounded)
  with reach_good [OF r] have inv: "heap_inv s (heap_blocks s)"
    and L: "L = live s (heap_blocks s)"
    by (simp_all add: good_def)
  from m p have n0: "n \<noteq> 0" by (auto simp: mymalloc_def split: if_splits)
  with m have l: "mymalloc_loop (round_request n) (pthread_mutex_lock s) = Some (p, s')"
    by (simp add: mymalloc_def)
  from inv have "heap_inv (pthread_mutex_lock s) (heap_blocks s)" by simp
  with mymalloc_loop_heap_inv [OF l] b p
  obtain bs' where inv': "heap_inv s' bs'" and np: "p \<notin> live s (heap_blocks s)"
    and lv: "live s' bs' = insert p (live s (heap_blocks s))"
    and pb: "p - sizeof_header \<in> set bs'"
    and sz: "hdr_size s' (p - sizeof_header) = round_request n"
    by fastforce
  from sz show "hdr_size s' (p - sizeof_header) = round_request n" .
  from np L show "p \<notin> L" by simp
  from pb heap_inv_blocks [OF inv'] show "p - sizeof_header \<in> set (heap_blocks s')" by simp
  from lv have "p \<in> live s' bs'" by simp
  then show "allocated s' (p - sizeof_header)" by (auto simp: live_def)
qed

subsection \<open>Alignment\<close>

lemma round_request_multiple: "8 dvd unat (round_request n)"
proof (cases "unat n \<le> 2 ^ 32 - 8")
  case True
  then show ?thesis by (rule round_request_covers)
next
  case False
  then have big: "4294967288 < unat n" by simp
  have lt: "unat n < 4294967296" using unsigned_less [of n, where ?'a = nat] by simp
  define k where "k = unat n - 4294967288"
  from big lt have k: "unat n = 4294967288 + k" "0 < k" "k < 8" by (simp_all add: k_def)
  have "(4294967288 + k) mod 8 = (4294967288 mod 8 + k) mod 8"
    by (simp only: mod_add_left_eq)
  with k have km: "unat n mod 8 = k" by simp
  have m: "unat (n mod 8) = k" using km by (simp add: unat_mod)
  then have nk: "n mod 8 = of_nat k" by (metis of_nat_unat ucast_id)
  have "n = of_nat (4294967288 + k)" using k(1) by (metis of_nat_unat ucast_id)
  then have "n + 8 - n mod 8 = of_nat (4294967288 + k) + 8 - of_nat k"
    using nk by simp
  also have "\<dots> = (0 :: u32)" by simp
  finally have z: "n + 8 - n mod 8 = 0" .
  have "n mod 8 \<noteq> 0"
  proof
    assume "n mod 8 = 0"
    then have "unat (n mod 8) = 0" by (simp only: unsigned_0)
    with m k show False by simp
  qed
  with z show ?thesis by (simp add: round_request_def BYTE_BOUNDARY_def)
qed

lemma mod8_shift:
  fixes a :: nat
  assumes "8 dvd d" 
  shows "(a + d) mod 8 = a mod 8"
  using assms by (metis dvd_eq_mod_eq_0 mod_add_right_eq add.right_neutral)

lemma aligned_step:
  assumes g: "good c" and st: "step c c'" and bd: "bounded (fst c')"
    and al: "aligned_blocks (fst c)"
  shows "aligned_blocks (fst c')"
  using st g bd al
proof (induction rule: step.induct)
  case (malloc n s p s' L)
  from malloc.prems have inv: "heap_inv s (heap_blocks s)"
    and al: "\<forall>b \<in> set (heap_blocks s). b mod 8 = heap_head s mod 8"
    by (simp_all add: good_def aligned_blocks_def)
  show ?case
  proof (cases "n = 0")
    case True
    with malloc.hyps malloc.prems show ?thesis by (simp add: mymalloc_def)
  next
    case False
    with malloc.hyps
    have m: "mymalloc_loop (round_request n) (pthread_mutex_lock s) = Some (p, s')"
      by (simp add: mymalloc_def)
    from mymalloc_loop_grown [OF m] have hh: "heap_head s' = heap_head s"
      by (simp add: grown_def)
    from inv have "heap_inv (pthread_mutex_lock s) (heap_blocks s)" by simp
    with mymalloc_loop_heap_inv [OF m] malloc.prems(2)
    obtain bs' where inv': "heap_inv s' bs'"
      and sb: "if p = NULL then set bs' \<subseteq> set (heap_blocks s)
               else p - sizeof_header \<in> set bs'
                 \<and> set bs' \<subseteq> insert (p + unat (round_request n)) (set (heap_blocks s))"
      by (fastforce split: if_splits)
    have "b mod 8 = heap_head s mod 8" if b: "b \<in> set bs'" for b
    proof (cases "p = NULL")
      case True
      with sb b al show ?thesis by auto
    next
      case False
      with sb have pb: "p - sizeof_header \<in> set bs'"
        and ss: "set bs' \<subseteq> insert (p + unat (round_request n)) (set (heap_blocks s))"
        by simp_all
      from False have "p - sizeof_header \<noteq> p + unat (round_request n)"
        by (simp add: c_defs)
      with pb ss have old: "p - sizeof_header \<in> set (heap_blocks s)" by auto
      from heap_inv_addr(5) [OF inv old] have p16: "sizeof_header \<le> p"
        by (simp add: c_defs)
      from al old have "(p - sizeof_header) mod 8 = heap_head s mod 8" by simp
      moreover from p16 have "p = (p - sizeof_header) + 16" by (simp add: c_defs)
      ultimately have pm: "p mod 8 = heap_head s mod 8"
        using mod8_shift [of 16 "p - sizeof_header"] by simp
      from mod8_shift [OF round_request_multiple, of p n] pm
      have "(p + unat (round_request n)) mod 8 = heap_head s mod 8" by simp
      with b ss al show ?thesis by auto
    qed
    with heap_inv_blocks [OF inv'] hh show ?thesis
      by (simp add: aligned_blocks_def)
  qed
next
  case (free p L s r s')
  from free.prems have inv: "heap_inv s (heap_blocks s)" and L: "L = live s (heap_blocks s)"
    and al: "\<forall>b \<in> set (heap_blocks s). b mod 8 = heap_head s mod 8"
    by (simp_all add: good_def aligned_blocks_def)
  from free.hyps(1) L have "p \<in> live s (heap_blocks s)" by simp
  from myfree_heap_inv [OF inv this] free.hyps(2)
  obtain bs' where inv': "heap_inv s' bs'" and sb: "set bs' \<subseteq> set (heap_blocks s)"
    by auto
  from myfree_grown(1) [OF free.hyps(2)] have "heap_head s' = heap_head s"
    by (simp add: grown_def)
  with heap_inv_blocks [OF inv'] sb al show ?case
    by (auto simp: aligned_blocks_def)
next
  case (reject p s r s' L)
  from reject.prems have inv: "heap_inv s (heap_blocks s)"
    and al: "\<forall>b \<in> set (heap_blocks s). b mod 8 = heap_head s mod 8"
    by (simp_all add: good_def aligned_blocks_def)
  from reject.hyps(2) reject.hyps(1)
  have "heap_inv s' (heap_blocks s) \<and> heap_head s' = heap_head s"
    using inv by (cases rule: myfree_cases) (simp_all add: rejected_def)
  with heap_inv_blocks [of s' "heap_blocks s"] al show ?case
    by (simp add: aligned_blocks_def)
next
  case (expand s r s' L)
  from expand.prems have inv: "heap_inv s (heap_blocks s)"
    and al: "\<forall>b \<in> set (heap_blocks s). b mod 8 = heap_head s mod 8"
    by (simp_all add: good_def aligned_blocks_def)
  from expand_heap_heap_inv [OF inv] expand.hyps expand.prems(2)
  have inv': "heap_inv s' (heap_blocks s)" by auto
  from expand_heap_grown(1) [OF expand.hyps] have "heap_head s' = heap_head s"
    by (simp add: grown_def)
  with heap_inv_blocks [OF inv'] al show ?case
    by (simp add: aligned_blocks_def)
qed

lemma reach_aligned:
  assumes "reach c" "bounded (fst c)"
  shows "aligned_blocks (fst c)"
  using assms
proof (induction rule: reach.induct)
  case (init b g sz nx s)
  from heap_inv_blocks [OF mymalloc_init_heap_inv(1) [OF init.hyps]]
    mod8_shift [of 48 "heap_head s"]
  show ?case by (simp add: aligned_blocks_def c_defs)
next
  case (step c c')
  from step_grown(1) [OF step.hyps(2)] step.prems have b: "bounded (fst c)"
    by (rule grown_bounded)
  from reach_good [OF step.hyps(1) b] step.hyps(2) step.prems step.IH [OF b]
  show ?case by (rule aligned_step)
qed

lemma mymalloc_aligned:
  assumes r: "reach (s, L)" and m: "mymalloc n s = Some (p, s')" and b: "bounded s'"
    and p: "p \<noteq> NULL"
  shows "p mod 8 = heap_head s mod 8"
proof -
  from m have "step (s, L) (s', if p = NULL then L else insert p L)" by (rule step.malloc)
  with r have "reach (s', if p = NULL then L else insert p L)" by (rule reach.step)
  from reach_aligned [OF this] b
  have al: "\<forall>b \<in> set (heap_blocks s'). b mod 8 = heap_head s' mod 8"
    by (simp add: aligned_blocks_def)
  note pb = mymalloc_block_size(4) [OF r m b p]
  from reach_good [OF \<open>reach (s', if p = NULL then L else insert p L)\<close>] b
  have inv': "heap_inv s' (heap_blocks s')" by (simp add: good_def)
  from heap_inv_addr(5) [OF inv' pb] have p16: "p = (p - sizeof_header) + 16"
    by (simp add: c_defs)
  from al pb have "(p - sizeof_header) mod 8 = heap_head s' mod 8" by simp
  with p16 mod8_shift [of 16 "p - sizeof_header"] have "p mod 8 = heap_head s' mod 8"
    by simp
  with mymalloc_grown(1) [OF m] show ?thesis by (simp add: grown_def)
qed

end
